theory Spec2Isabelle
  imports Complex_Main "HOL-Library.Sublist"
begin

section \<open>Laptop catalogue: a shallow embedding of \<^verbatim>\<open>app/main.py\<close>\<close>

text \<open>
  The program reads a JSON file of laptop entries, normalises every entry into a
  dictionary with the keys \<^verbatim>\<open>id\<close>, \<^verbatim>\<open>name\<close>, \<^verbatim>\<open>price\<close>, \<^verbatim>\<open>pics\<close> and
  \<^verbatim>\<open>description\<close>, keeps the sorted list in a module-level cache and serves three
  routes from it.

  Conventions of the embedding.
  \<^item> A Python \<^verbatim>\<open>str\<close> is a \<^typ>\<open>string\<close>; a \<^typ>\<open>char\<close> stands for the code point
    of the same number, so the strings covered are those over U+0000..U+00FF.
  \<^item> A Python \<^verbatim>\<open>int\<close> is an \<^typ>\<open>int\<close>; a Python \<^verbatim>\<open>float\<close> is the exact rational
    value of the double, or one of the three special values.
  \<^item> Every \<^verbatim>\<open>raise\<close> is a value \<open>Inl e\<close> of the result type \<open>error + 'a\<close>.
  \<^item> The dictionaries built by the loader are objects in an explicit heap, the cache and
    every list of records hold their addresses: the listing route writes into the
    objects it displays, and these are the objects of the cache.
\<close>

subsection \<open>Strings\<close>

definition py_isspace :: "char \<Rightarrow> bool" where
  \<comment> \<open>\<^verbatim>\<open>str.isspace\<close> on U+0000..U+00FF: TAB..CR, FS..US, space, NEL, NBSP.\<close>
  "py_isspace c \<longleftrightarrow> c \<in> set [CHR 0x09, CHR 0x0A, CHR 0x0B, CHR 0x0C, CHR 0x0D,
     CHR 0x1C, CHR 0x1D, CHR 0x1E, CHR 0x1F, CHR 0x20, CHR 0x85, CHR 0xA0]"

definition strip_chars :: "(char \<Rightarrow> bool) \<Rightarrow> string \<Rightarrow> string" where
  "strip_chars P s = rev (dropWhile P (rev (dropWhile P s)))"

definition strip :: "string \<Rightarrow> string" where
  \<comment> \<open>\<^verbatim>\<open>s.strip()\<close>\<close>
  "strip s = strip_chars py_isspace s"

definition upper_chars :: string where
  "upper_chars = ''ABCDEFGHIJKLMNOPQRSTUVWXYZ'' @
     [CHR 0xC0, CHR 0xC1, CHR 0xC2, CHR 0xC3, CHR 0xC4, CHR 0xC5, CHR 0xC6, CHR 0xC7,
      CHR 0xC8, CHR 0xC9, CHR 0xCA, CHR 0xCB, CHR 0xCC, CHR 0xCD, CHR 0xCE, CHR 0xCF,
      CHR 0xD0, CHR 0xD1, CHR 0xD2, CHR 0xD3, CHR 0xD4, CHR 0xD5, CHR 0xD6,
      CHR 0xD8, CHR 0xD9, CHR 0xDA, CHR 0xDB, CHR 0xDC, CHR 0xDD, CHR 0xDE]"

definition lower_chars :: string where
  "lower_chars = ''abcdefghijklmnopqrstuvwxyz'' @
     [CHR 0xE0, CHR 0xE1, CHR 0xE2, CHR 0xE3, CHR 0xE4, CHR 0xE5, CHR 0xE6, CHR 0xE7,
      CHR 0xE8, CHR 0xE9, CHR 0xEA, CHR 0xEB, CHR 0xEC, CHR 0xED, CHR 0xEE, CHR 0xEF,
      CHR 0xF0, CHR 0xF1, CHR 0xF2, CHR 0xF3, CHR 0xF4, CHR 0xF5, CHR 0xF6,
      CHR 0xF8, CHR 0xF9, CHR 0xFA, CHR 0xFB, CHR 0xFC, CHR 0xFD, CHR 0xFE]"

definition lower_char :: "char \<Rightarrow> char" where
  "lower_char c = (case map_of (zip upper_chars lower_chars) c of Some l \<Rightarrow> l | None \<Rightarrow> c)"

definition lower :: "string \<Rightarrow> string" where
  \<comment> \<open>\<^verbatim>\<open>s.lower()\<close>\<close>
  "lower s = map lower_char s"

definition is_digit :: "char \<Rightarrow> bool" where
  \<comment> \<open>the character class \<^verbatim>\<open>[0-9]\<close>\<close>
  "is_digit c \<longleftrightarrow> c \<in> set ''0123456789''"

definition is_lower_alnum :: "char \<Rightarrow> bool" where
  \<comment> \<open>the character class \<^verbatim>\<open>[a-z0-9]\<close>\<close>
  "is_lower_alnum c \<longleftrightarrow> c \<in> set ''abcdefghijklmnopqrstuvwxyz0123456789''"

fun py_in :: "string \<Rightarrow> string \<Rightarrow> bool" where
  \<comment> \<open>\<^verbatim>\<open>needle in haystack\<close> on strings\<close>
  "py_in needle [] = (needle = [])"
| "py_in needle (c # cs) = (take (length needle) (c # cs) = needle \<or> py_in needle cs)"

definition startswith :: "string \<Rightarrow> string \<Rightarrow> bool" where
  \<comment> \<open>\<^verbatim>\<open>s.startswith(p)\<close>\<close>
  "startswith s p \<longleftrightarrow> take (length p) s = p"

definition digit_char :: "nat \<Rightarrow> char" where
  "digit_char d = ''0123456789'' ! d"

fun str_nat :: "nat \<Rightarrow> string" where
  \<comment> \<open>the decimal numeral that an f-string writes for a non-negative \<^verbatim>\<open>int\<close>\<close>
  "str_nat n = (if n < 10 then [digit_char n] else str_nat (n div 10) @ [digit_char (n mod 10)])"

declare str_nat.simps [simp del]

subsection \<open>Values read from the file, and errors\<close>

text \<open>
  What \<^verbatim>\<open>json.load\<close> returns: \<^verbatim>\<open>None\<close>, a \<^verbatim>\<open>bool\<close>, an \<^verbatim>\<open>int\<close>, a \<^verbatim>\<open>float\<close> (the
  literals \<^verbatim>\<open>Infinity\<close>, \<^verbatim>\<open>-Infinity\<close> and \<^verbatim>\<open>NaN\<close> are accepted), a \<^verbatim>\<open>str\<close>, a list, or a
  dictionary with string keys, given by its items in order (the keys of a parsed
  dictionary are pairwise different).
\<close>

datatype pyfloat = Finite rat | PosInf | NegInf | NaN

datatype json =
    JNull
  | JBool bool
  | JInt int
  | JFloat pyfloat
  | JStr string
  | JList "json list"
  | JDict "(string \<times> json) list"

text \<open>
  The exceptions, \<^verbatim>\<open>ValueError\<close> and \<^verbatim>\<open>OverflowError\<close> with their messages and
  \<^verbatim>\<open>HTTPException\<close> with status code and detail. The message of
  \<^verbatim>\<open>FileNotFoundError\<close> names the path of the data file and is left out.
\<close>

datatype error =
    FileNotFoundError
  | JSONDecodeError
  | ValueError string
  | OverflowError string
  | HTTPException nat string

text \<open>
  \<^verbatim>\<open>str(v)\<close> is \<open>v\<close> itself for a string. For any other value it is the value's
  \<^verbatim>\<open>repr\<close> (the shortest round-trip numeral of a float, the quoting of strings inside
  lists and dictionaries), which nothing below depends on: \<open>repr\<close> is a parameter of the
  model, and every theorem holds for every choice of it.
\<close>

definition py_str :: "(json \<Rightarrow> string) \<Rightarrow> json \<Rightarrow> string" where
  "py_str repr v = (case v of JStr s \<Rightarrow> s | _ \<Rightarrow> repr v)"

definition dict_get :: "(string \<times> json) list \<Rightarrow> string \<Rightarrow> json \<Rightarrow> json" where
  \<comment> \<open>\<^verbatim>\<open>row.get(key, default)\<close>\<close>
  "dict_get row k d = (case map_of row k of Some v \<Rightarrow> v | None \<Rightarrow> d)"

subsection \<open>Floats: \<^verbatim>\<open>float(s)\<close> and \<^verbatim>\<open>int(x)\<close>\<close>

function bit_length :: "int \<Rightarrow> nat" where
  \<comment> \<open>\<^verbatim>\<open>n.bit_length()\<close> for a positive \<open>n\<close>\<close>
  "bit_length n = (if n \<le> 0 then 0 else Suc (bit_length (n div 2)))"
  by pat_completeness auto
termination
  by (relation "measure nat") auto

declare bit_length.simps [simp del]

definition pow2 :: "int \<Rightarrow> rat" where
  "pow2 k = (if 0 \<le> k then 2 ^ nat k else 1 / 2 ^ nat (- k))"

definition round_half_even :: "rat \<Rightarrow> int" where
  "round_half_even q =
     (let f = \<lfloor>q\<rfloor>; r = q - of_int f
      in if r < 1 / 2 then f else if 1 / 2 < r then f + 1 else if even f then f else f + 1)"

definition round_double :: "int \<Rightarrow> int \<Rightarrow> pyfloat" where
  \<comment> \<open>The double nearest to \<open>n / d\<close> (ties to even; 53 bits, least exponent -1074),
      infinite from \<open>2 ^ 1024\<close> on: the correctly rounded conversion of \<^verbatim>\<open>float(s)\<close>.\<close>
  "round_double n d =
     (if n = 0 then Finite 0
      else let q = of_int n / of_int d;
               k = int (bit_length n) - int (bit_length d);
               e = (if pow2 k \<le> q then k else k - 1);
               u = pow2 (max e (- 1022) - 52);
               v = of_int (round_half_even (q / u)) * u
           in if 2 ^ 1024 \<le> v then PosInf else Finite v)"

definition digit_val :: "char \<Rightarrow> int" where
  "digit_val c = (case map_of (zip ''0123456789'' [0 .. 9]) c of Some d \<Rightarrow> d | None \<Rightarrow> 0)"

definition int_of_digits :: "string \<Rightarrow> int" where
  "int_of_digits s = foldl (\<lambda>a c. 10 * a + digit_val c) 0 s"

definition py_float :: "string \<Rightarrow> error + pyfloat" where
  \<comment> \<open>\<^verbatim>\<open>float(s)\<close> for a string of digits and dots, which is all \<^verbatim>\<open>parse_price\<close>
      passes: a numeral needs a digit and has at most one dot.\<close>
  "py_float s =
     (if length (filter (\<lambda>c. c = CHR ''.'') s) \<le> 1 \<and> (\<exists>c \<in> set s. is_digit c)
      then (let whole = takeWhile is_digit s;
                frac = drop 1 (dropWhile is_digit s)
            in Inr (round_double (int_of_digits (whole @ frac)) (10 ^ length frac)))
      else Inl (ValueError (''could not convert string to float: '' @ [CHR 0x27] @ s @ [CHR 0x27])))"

definition py_trunc :: "rat \<Rightarrow> int" where
  \<comment> \<open>rounding towards zero\<close>
  "py_trunc q = (if 0 \<le> q then \<lfloor>q\<rfloor> else \<lceil>q\<rceil>)"

definition int_of_float :: "pyfloat \<Rightarrow> error + int" where
  \<comment> \<open>\<^verbatim>\<open>int(x)\<close> for a float\<close>
  "int_of_float x =
     (case x of
        Finite q \<Rightarrow> Inr (py_trunc q)
      | NaN \<Rightarrow> Inl (ValueError ''cannot convert float NaN to integer'')
      | _ \<Rightarrow> Inl (OverflowError ''cannot convert float infinity to integer''))"

subsection \<open>Helpers of the loader\<close>

definition parse_price :: "(json \<Rightarrow> string) \<Rightarrow> json \<Rightarrow> error + int" where
  "parse_price repr v =
     (case v of
        JNull \<Rightarrow> Inr 0
      | JBool b \<Rightarrow> Inr (if b then 1 else 0)
      | JInt i \<Rightarrow> Inr i
      | JFloat x \<Rightarrow> int_of_float x
      | _ \<Rightarrow>
          (let s = py_str repr v;
               s = strip (filter (\<lambda>c. c \<noteq> CHR '','') s);
               s = filter (\<lambda>c. is_digit c \<or> c = CHR ''.'') s
           in if s = [] then Inr 0
              else (case py_float s of Inl e \<Rightarrow> Inl e | Inr x \<Rightarrow> int_of_float x)))"

function sub_non_alnum :: "string \<Rightarrow> string" where
  \<comment> \<open>\<^verbatim>\<open>re.sub(r"[^a-z0-9]+", "-", t)\<close>: every maximal run of characters outside
      \<^verbatim>\<open>[a-z0-9]\<close> becomes one hyphen\<close>
  "sub_non_alnum [] = []"
| "sub_non_alnum (c # cs) =
     (if is_lower_alnum c then c # sub_non_alnum cs
      else CHR ''-'' # sub_non_alnum (dropWhile (\<lambda>c. \<not> is_lower_alnum c) cs))"
  by pat_completeness auto
termination
  by (relation "measure length") (auto simp: le_imp_less_Suc length_dropWhile_le)

function sub_hyphens :: "string \<Rightarrow> string" where
  \<comment> \<open>\<^verbatim>\<open>re.sub(r"-{2,}", "-", t)\<close>: every maximal run of two or more hyphens becomes
      one hyphen\<close>
  "sub_hyphens [] = []"
| "sub_hyphens (c # cs) =
     (if c = CHR ''-'' \<and> startswith cs ''-''
      then CHR ''-'' # sub_hyphens (dropWhile (\<lambda>c. c = CHR ''-'') cs)
      else c # sub_hyphens cs)"
  by pat_completeness auto
termination
  by (relation "measure length") (auto simp: le_imp_less_Suc length_dropWhile_le)

definition slugify :: "string \<Rightarrow> string" where
  "slugify text =
     (let t = lower (strip text);
          t = sub_non_alnum t;
          t = strip_chars (\<lambda>c. c = CHR ''-'') (sub_hyphens t)
      in if t = [] then ''item'' else t)"

definition normalize_pics :: "(json \<Rightarrow> string) \<Rightarrow> json \<Rightarrow> string list" where
  "normalize_pics repr raw =
     (case raw of
        JNull \<Rightarrow> []
      | JList xs \<Rightarrow> map (\<lambda>x. strip (py_str repr x)) (filter (\<lambda>x. strip (py_str repr x) \<noteq> []) xs)
      | _ \<Rightarrow> if strip (py_str repr raw) \<noteq> [] then [strip (py_str repr raw)] else [])"

definition resolve_pic_url :: "string \<Rightarrow> string" where
  "resolve_pic_url pic0 =
     (let pic = strip pic0
      in if pic = [] then []
         else if startswith pic ''http://'' \<or> startswith pic ''https://'' then pic
         else if startswith pic ''/'' then pic
         else ''/static/'' @ pic)"

subsection \<open>Records, the heap and the cache\<close>

text \<open>
  A record of the catalogue is a dictionary with five keys, to which the listing route
  adds a sixth, \<^verbatim>\<open>pic_urls\<close> (\<open>None\<close> while the key is absent).
\<close>

record laptop =
  item_id :: string
  name :: string
  price :: int
  pics :: "string list"
  description :: string
  pic_urls :: "string list option"

type_synonym addr = nat

text \<open>
  The state of the process: the dictionaries allocated so far (\<open>heap\<close>, with
  \<open>next_addr\<close> the first free address) and the module-level \<^verbatim>\<open>_cache\<close>, whose
  \<^verbatim>\<open>items\<close> is a list of references to dictionaries.
\<close>

record state =
  heap :: "addr \<Rightarrow> laptop"
  next_addr :: addr
  cache_mtime :: "rat option"
  cache_items :: "addr list"

definition init_state :: state where
  \<comment> \<open>\<^verbatim>\<open>_cache = {"mtime": None, "items": []}\<close>\<close>
  "init_state =
     \<lparr>heap = (\<lambda>_. \<lparr>item_id = [], name = [], price = 0, pics = [], description = [],
                       pic_urls = None\<rparr>),
      next_addr = 0, cache_mtime = None, cache_items = []\<rparr>"

text \<open>
  The backing file as one call sees it: absent, or its modification time and what
  \<^verbatim>\<open>json.load\<close> makes of its text (\<open>None\<close> when the text is not JSON).
\<close>

type_synonym data_file = "(rat \<times> json option) option"

definition alloc :: "laptop \<Rightarrow> state \<Rightarrow> state" where
  "alloc d st = st\<lparr>heap := (heap st)(next_addr st := d), next_addr := Suc (next_addr st)\<rparr>"

subsection \<open>The catalogue loader\<close>

definition make_item :: "(json \<Rightarrow> string) \<Rightarrow> nat \<Rightarrow> (string \<times> json) list \<Rightarrow> error + laptop" where
  \<comment> \<open>the body of the loop of \<^verbatim>\<open>load_laptops\<close> for a row that is a dictionary\<close>
  "make_item repr idx row =
     (let nm = strip (py_str repr (dict_get row ''name'' (JStr [])));
          nm = (if nm = [] then ''Untitled Laptop '' @ str_nat (idx + 1) else nm)
      in case parse_price repr (dict_get row ''price'' (JInt 0)) of
           Inl e \<Rightarrow> Inl e
         | Inr pr \<Rightarrow>
             (let pics_raw = dict_get row ''pic'' JNull;
                  pics_raw = (if pics_raw = JNull then dict_get row ''pics'' JNull else pics_raw);
                  ps = normalize_pics repr pics_raw;
                  desc = strip (py_str repr (dict_get row ''description'' (JStr [])))
              in Inr \<lparr>item_id = slugify nm @ ''-'' @ str_nat (idx + 1), name = nm, price = pr,
                      pics = ps, description = desc, pic_urls = None\<rparr>))"

fun build_items ::
  "(json \<Rightarrow> string) \<Rightarrow> nat \<Rightarrow> json list \<Rightarrow> state \<Rightarrow> error + (addr list \<times> state)" where
  \<comment> \<open>\<^verbatim>\<open>for idx, row in enumerate(data)\<close>, from position \<open>idx\<close> on\<close>
  "build_items repr idx [] st = Inr ([], st)"
| "build_items repr idx (row # rows) st =
     (case row of
        JDict kv \<Rightarrow>
          (case make_item repr idx kv of
             Inl e \<Rightarrow> Inl e
           | Inr d \<Rightarrow>
               (case build_items repr (idx + 1) rows (alloc d st) of
                  Inl e \<Rightarrow> Inl e
                | Inr (items, st') \<Rightarrow> Inr (next_addr st # items, st')))
      | _ \<Rightarrow> build_items repr (idx + 1) rows st)"

text \<open>
  \<^verbatim>\<open>items.sort(key=...)\<close> is a stable ascending sort; a stable sort has one possible
  result, which \<^const>\<open>sort_key\<close> computes. A load that raises leaves the cache as it
  was, so only a load that returns gives a new state.
\<close>

definition load_laptops ::
  "(json \<Rightarrow> string) \<Rightarrow> data_file \<Rightarrow> state \<Rightarrow> error + (addr list \<times> state)" where
  "load_laptops repr file st =
     (case file of
        None \<Rightarrow> Inl FileNotFoundError
      | Some (mtime, content) \<Rightarrow>
          if cache_mtime st = Some mtime \<and> cache_items st \<noteq> [] then Inr (cache_items st, st)
          else
            (case content of
               None \<Rightarrow> Inl JSONDecodeError
             | Some (JList rows) \<Rightarrow>
                 (case build_items repr 0 rows st of
                    Inl e \<Rightarrow> Inl e
                  | Inr (items, st1) \<Rightarrow>
                      (let items = sort_key (\<lambda>x. price (heap st1 x)) items
                       in Inr (items, st1\<lparr>cache_mtime := Some mtime, cache_items := items\<rparr>)))
             | Some _ \<Rightarrow> Inl (ValueError ''laptops.json must be a LIST of objects.'')))"

subsection \<open>Filtering\<close>

definition filter_laptops ::
  "(addr \<Rightarrow> laptop) \<Rightarrow> addr list \<Rightarrow> int option \<Rightarrow> int option \<Rightarrow> string option \<Rightarrow> addr list" where
  "filter_laptops h items min_price max_price q =
     (let out = items;
          out = (case min_price of None \<Rightarrow> out | Some m \<Rightarrow> filter (\<lambda>x. m \<le> price (h x)) out);
          out = (case max_price of None \<Rightarrow> out | Some m \<Rightarrow> filter (\<lambda>x. price (h x) \<le> m) out)
      in case q of
           None \<Rightarrow> out
         | Some s \<Rightarrow>
             if s = [] then out
             else (let qq = lower (strip s) in filter (\<lambda>x. py_in qq (lower (name (h x)))) out))"

definition normalize_range_value :: "int option \<Rightarrow> int option" where
  "normalize_range_value v =
     (case v of None \<Rightarrow> None | Some n \<Rightarrow> if 0 < n \<and> n < 1000 then Some (n * 1000) else Some n)"

subsection \<open>Routes\<close>

datatype ctx = CInt int | CStr string

definition or_empty :: "int option \<Rightarrow> ctx" where
  \<comment> \<open>\<^verbatim>\<open>v or ""\<close>\<close>
  "or_empty v = (case v of None \<Rightarrow> CStr [] | Some n \<Rightarrow> if n = 0 then CStr [] else CInt n)"

datatype response =
    Listing "laptop list" ctx ctx string ctx ctx
      \<comment> \<open>\<^verbatim>\<open>index.html\<close>: items, min_price, max_price, q, effective_min, effective_max\<close>
  | ProductView laptop "string list"
      \<comment> \<open>\<^verbatim>\<open>product.html\<close>: item, pics\<close>
  | ApiResult nat "laptop list"
      \<comment> \<open>count, items\<close>

definition with_pic_urls :: "laptop \<Rightarrow> laptop" where
  \<comment> \<open>the body of the loop of \<^verbatim>\<open>home\<close>\<close>
  "with_pic_urls x =
     (let urls = map resolve_pic_url (pics x)
      in x\<lparr>pic_urls := Some (if urls = [] then [''https://via.placeholder.com/160x120?text=No+Image'']
                               else urls)\<rparr>)"

fun set_pic_urls :: "addr list \<Rightarrow> (addr \<Rightarrow> laptop) \<Rightarrow> (addr \<Rightarrow> laptop)" where
  \<comment> \<open>\<^verbatim>\<open>for x in filtered: x["pic_urls"] = ...\<close>\<close>
  "set_pic_urls [] h = h"
| "set_pic_urls (x # xs) h = set_pic_urls xs (h(x := with_pic_urls (h x)))"

definition home ::
  "(json \<Rightarrow> string) \<Rightarrow> data_file \<Rightarrow> int option \<Rightarrow> int option \<Rightarrow> int option \<Rightarrow> int option \<Rightarrow>
     string option \<Rightarrow> state \<Rightarrow> (error + response) \<times> state" where
  "home repr file min_price max_price min_short max_short q st =
     (case load_laptops repr file st of
        Inl e \<Rightarrow> (Inl e, st)
      | Inr (items, st1) \<Rightarrow>
          (let effective_min =
                 normalize_range_value (if min_short \<noteq> None then min_short else min_price);
               effective_max =
                 normalize_range_value (if max_short \<noteq> None then max_short else max_price);
               filtered = filter_laptops (heap st1) items effective_min effective_max q;
               st2 = st1\<lparr>heap := set_pic_urls filtered (heap st1)\<rparr>
           in (Inr (Listing (map (heap st2) filtered)
                      (case min_short of Some n \<Rightarrow> CInt n | None \<Rightarrow> or_empty min_price)
                      (case max_short of Some n \<Rightarrow> CInt n | None \<Rightarrow> or_empty max_price)
                      (case q of Some s \<Rightarrow> s | None \<Rightarrow> [])
                      (or_empty effective_min) (or_empty effective_max)),
               st2)))"

definition product_page ::
  "(json \<Rightarrow> string) \<Rightarrow> data_file \<Rightarrow> string \<Rightarrow> state \<Rightarrow> (error + response) \<times> state" where
  "product_page repr file wanted st =
     (case load_laptops repr file st of
        Inl e \<Rightarrow> (Inl e, st)
      | Inr (items, st1) \<Rightarrow>
          (case find (\<lambda>x. item_id (heap st1 x) = wanted) items of
             None \<Rightarrow> (Inl (HTTPException 404 ''Laptop not found''), st1)
           | Some x \<Rightarrow>
               (let ps = map resolve_pic_url (pics (heap st1 x));
                    ps = (if length ps = 0
                          then [''https://via.placeholder.com/900x600?text=No+Image''] else ps);
                    ps = (if length ps = 1 then [ps ! 0, ps ! 0] else ps)
                in (Inr (ProductView (heap st1 x) (take 2 ps)), st1))))"

definition api_laptops ::
  "(json \<Rightarrow> string) \<Rightarrow> data_file \<Rightarrow> int option \<Rightarrow> int option \<Rightarrow> string option \<Rightarrow> state \<Rightarrow>
     (error + response) \<times> state" where
  "api_laptops repr file min_price max_price q st =
     (case load_laptops repr file st of
        Inl e \<Rightarrow> (Inl e, st)
      | Inr (items, st1) \<Rightarrow>
          (let filtered = filter_laptops (heap st1) items min_price max_price q
           in (Inr (ApiResult (length filtered) (map (heap st1) filtered)), st1)))"

text \<open>
  The states the process can be in: it starts with the empty cache and serves one
  request after another; between two requests the file may have changed in any way.
\<close>

datatype request =
    Home "int option" "int option" "int option" "int option" "string option"
  | ProductPage string
  | ApiLaptops "int option" "int option" "string option"

fun serve :: "(json \<Rightarrow> string) \<Rightarrow> data_file \<Rightarrow> request \<Rightarrow> state \<Rightarrow> (error + response) \<times> state" where
  "serve repr file (Home min_price max_price min_short max_short q) st =
     home repr file min_price max_price min_short max_short q st"
| "serve repr file (ProductPage wanted) st = product_page repr file wanted st"
| "serve repr file (ApiLaptops min_price max_price q) st =
     api_laptops repr file min_price max_price q st"

inductive reachable :: "(json \<Rightarrow> string) \<Rightarrow> state \<Rightarrow> bool" for repr where
  start: "reachable repr init_state"
| step: "reachable repr st \<Longrightarrow> reachable repr (snd (serve repr file req st))"

subsection \<open>Notions of the specification\<close>

text \<open>
  The identifier rule in the specification's words: lowercase the name, replace every run
  of characters that are not (ASCII) letters or digits by one hyphen, trim the hyphens at
  both ends, and fall back to \<^verbatim>\<open>item\<close> when nothing is left.
\<close>

definition slugify_spec :: "string \<Rightarrow> string" where
  "slugify_spec text =
     (let t = strip_chars (\<lambda>c. c = CHR ''-'') (sub_non_alnum (lower text))
      in if t = [] then ''item'' else t)"

text \<open>
  The key-value records of a source sequence in file order, each with its position in
  the sequence, counted from \<open>idx\<close> for the first element.
\<close>

fun entries_from :: "nat \<Rightarrow> json list \<Rightarrow> (nat \<times> (string \<times> json) list) list" where
  "entries_from idx [] = []"
| "entries_from idx (row # rows) =
     (case row of
        JDict kv \<Rightarrow> (idx, kv) # entries_from (Suc idx) rows
      | _ \<Rightarrow> entries_from (Suc idx) rows)"

text \<open>
  What holds of the cache between two requests: its records are allocated objects,
  ascending in price, with pairwise different identifiers of the specified form.
\<close>

definition cache_inv :: "state \<Rightarrow> bool" where
  "cache_inv st \<longleftrightarrow>
     (\<forall>x \<in> set (cache_items st). x < next_addr st) \<and>
     sorted (map (\<lambda>x. price (heap st x)) (cache_items st)) \<and>
     distinct (map (\<lambda>x. item_id (heap st x)) (cache_items st)) \<and>
     (\<forall>x \<in> set (cache_items st). \<exists>i.
        item_id (heap st x) = slugify_spec (name (heap st x)) @ ''-'' @ str_nat (Suc i))"

text \<open>A small file, for instances of the theorems.\<close>

definition example_rows :: "json list" where
  "example_rows =
     [JDict [(''name'', JStr ''Dell XPS 13''), (''price'', JInt 150000),
             (''pic'', JStr ''images/a.jpg'')],
      JInt 3,
      JDict [(''name'', JStr ''HP Pavilion''), (''price'', JInt 500)],
      JDict [(''name'', JStr ''Dell XPS 13''), (''price'', JInt 500)]]"

definition example_file :: data_file where
  "example_file = Some (5, Some (JList example_rows))"

section \<open>Properties\<close>

subsection \<open>An instance: loading the example file\<close>

lemma example_load_eval:
  "(case load_laptops repr example_file init_state of
      Inl e \<Rightarrow> False
    | Inr (items, st1) \<Rightarrow>
        items = [1, 2, 0] \<and> next_addr st1 = 3 \<and> cache_mtime st1 = Some 5 \<and>
        cache_items st1 = [1, 2, 0] \<and>
        heap st1 0 =
          \<lparr>item_id = ''dell-xps-13-1'', name = ''Dell XPS 13'', price = 150000,
           pics = [''images/a.jpg''], description = [], pic_urls = None\<rparr> \<and>
        heap st1 1 =
          \<lparr>item_id = ''hp-pavilion-3'', name = ''HP Pavilion'', price = 500, pics = [],
           description = [], pic_urls = None\<rparr> \<and>
        heap st1 2 =
          \<lparr>item_id = ''dell-xps-13-4'', name = ''Dell XPS 13'', price = 500, pics = [],
           description = [], pic_urls = None\<rparr>)"
  by code_simp

lemma example_load:
  obtains st1 where
    "load_laptops repr example_file init_state = Inr ([1, 2, 0], st1)"
    "next_addr st1 = 3" "cache_mtime st1 = Some 5" "cache_items st1 = [1, 2, 0]"
    "heap st1 0 =
       \<lparr>item_id = ''dell-xps-13-1'', name = ''Dell XPS 13'', price = 150000,
        pics = [''images/a.jpg''], description = [], pic_urls = None\<rparr>"
    "heap st1 (Suc 0) =
       \<lparr>item_id = ''hp-pavilion-3'', name = ''HP Pavilion'', price = 500, pics = [],
        description = [], pic_urls = None\<rparr>"
    "heap st1 2 =
       \<lparr>item_id = ''dell-xps-13-4'', name = ''Dell XPS 13'', price = 500, pics = [],
        description = [], pic_urls = None\<rparr>"
  using example_load_eval [of repr] by (auto split: sum.splits)

subsection \<open>The loop of the listing route\<close>

lemma with_pic_urls_fields [simp]:
  "item_id (with_pic_urls x) = item_id x" "name (with_pic_urls x) = name x"
  "price (with_pic_urls x) = price x" "pics (with_pic_urls x) = pics x"
  "description (with_pic_urls x) = description x"
  by (simp_all add: with_pic_urls_def Let_def)

lemma with_pic_urls_idem [simp]: "with_pic_urls (with_pic_urls x) = with_pic_urls x"
  by (simp add: with_pic_urls_def Let_def)

lemma set_pic_urls_apply:
  "set_pic_urls xs h x = (if x \<in> set xs then with_pic_urls (h x) else h x)"
  by (induction xs arbitrary: h) auto

lemma map_set_pic_urls:
  "map (set_pic_urls xs h) xs = map (\<lambda>x. with_pic_urls (h x)) xs"
  by (simp add: set_pic_urls_apply)

subsection \<open>Range normalisation\<close>

text \<open>
  C7. \<^verbatim>\<open>normalize_range_value\<close> keeps \<open>None\<close>, multiplies a value strictly between 0 and
  1000 by 1000 and returns any other value as it is. On the listing route a short-form
  bound, when given, decides: the legacy bound of the same side is ignored, and the
  records shown are those that pass the filter with the normalised short-form bounds.
\<close>

theorem normalize_range_value_short_form_wins:
  "normalize_range_value None = None \<and>
   (0 < v \<and> v < 1000 \<longrightarrow> normalize_range_value (Some v) = Some (v * 1000)) \<and>
   (v \<le> 0 \<or> 1000 \<le> v \<longrightarrow> normalize_range_value (Some v) = Some v) \<and>
   home repr dfile min_price max_price (Some a) max_short q st =
     home repr dfile None max_price (Some a) max_short q st \<and>
   home repr dfile min_price max_price min_short (Some b) q st =
     home repr dfile min_price None min_short (Some b) q st \<and>
   (load_laptops repr dfile st = Inr (items, st1) \<longrightarrow>
      fst (home repr dfile min_price max_price (Some a) (Some b) q st) =
        Inr (Listing
               (map (\<lambda>x. with_pic_urls (heap st1 x))
                  (filter_laptops (heap st1) items
                     (normalize_range_value (Some a)) (normalize_range_value (Some b)) q))
               (CInt a) (CInt b) (case q of Some s \<Rightarrow> s | None \<Rightarrow> [])
               (or_empty (normalize_range_value (Some a)))
               (or_empty (normalize_range_value (Some b)))))"
proof -
  have short_min: "home repr dfile min_price max_price (Some a) max_short q st =
      home repr dfile None max_price (Some a) max_short q st"
    by (simp add: home_def split: sum.splits)
  have short_max: "home repr dfile min_price max_price min_short (Some b) q st =
      home repr dfile min_price None min_short (Some b) q st"
    by (simp add: home_def split: sum.splits)
  have shown: "fst (home repr dfile min_price max_price (Some a) (Some b) q st) =
        Inr (Listing
               (map (\<lambda>x. with_pic_urls (heap st1 x))
                  (filter_laptops (heap st1) items
                     (normalize_range_value (Some a)) (normalize_range_value (Some b)) q))
               (CInt a) (CInt b) (case q of Some s \<Rightarrow> s | None \<Rightarrow> [])
               (or_empty (normalize_range_value (Some a)))
               (or_empty (normalize_range_value (Some b))))"
    if "load_laptops repr dfile st = Inr (items, st1)"
    using that by (simp add: home_def Let_def map_set_pic_urls)
  show ?thesis
    using short_min short_max shown by (simp add: normalize_range_value_def)
qed

theorem normalize_range_value_short_form_wins_witness:
  "normalize_range_value (Some 50) = Some 50000 \<and>
   normalize_range_value (Some 0) = Some 0 \<and>
   normalize_range_value (Some 1000) = Some 1000 \<and>
   fst (home (\<lambda>_. []) example_file (Some 700) (Some 2) (Some 1) (Some 150) None init_state) =
     Inr (Listing
            [\<lparr>item_id = ''dell-xps-13-1'', name = ''Dell XPS 13'', price = 150000,
              pics = [''images/a.jpg''], description = [],
              pic_urls = Some [''/static/images/a.jpg'']\<rparr>]
            (CInt 1) (CInt 150) [] (CInt 1000) (CInt 150000))"
proof -
  obtain st1 where ld: "load_laptops (\<lambda>_. []) example_file init_state = Inr ([1, 2, 0], st1)"
    and h: "heap st1 0 =
       \<lparr>item_id = ''dell-xps-13-1'', name = ''Dell XPS 13'', price = 150000,
        pics = [''images/a.jpg''], description = [], pic_urls = None\<rparr>"
      "price (heap st1 (Suc 0)) = 500" "price (heap st1 2) = 500"
    by (rule example_load [of "\<lambda>_. []"]) simp
  have url: "resolve_pic_url ''images/a.jpg'' = ''/static/images/a.jpg''"
    by code_simp
  show ?thesis
    using normalize_range_value_short_form_wins [where v = 50]
      normalize_range_value_short_form_wins [where v = 0]
      normalize_range_value_short_form_wins [where v = 1000]
      normalize_range_value_short_form_wins [where repr = "\<lambda>_. []" and dfile = example_file
        and st = init_state and items = "[1, 2, 0]" and ?st1.0 = st1 and a = 1 and b = 150
        and q = None and min_price = "Some 700" and max_price = "Some 2"]
    by (simp add: ld h url filter_laptops_def with_pic_urls_def or_empty_def)
qed

subsection \<open>Filtering\<close>

lemma take_length_eq_prefix: "take (length n) h = n \<longleftrightarrow> prefix n h"
  by (metis append_eq_conv_conj prefix_def)

lemma py_in_sublist: "py_in n h \<longleftrightarrow> sublist n h"
  by (induction h) (simp_all add: sublist_Cons_right take_length_eq_prefix del: take_Suc_Cons)

lemma strip_Nil [simp]: "strip [] = []"
  by (simp add: strip_def strip_chars_def)

lemma lower_Nil [simp]: "lower [] = []"
  by (simp add: lower_def)

lemma filter_laptops_filter:
  "filter_laptops h items min_price max_price q =
     filter (\<lambda>x. (case min_price of None \<Rightarrow> True | Some m \<Rightarrow> m \<le> price (h x)) \<and>
                 (case max_price of None \<Rightarrow> True | Some m \<Rightarrow> price (h x) \<le> m) \<and>
                 (case q of None \<Rightarrow> True
                  | Some s \<Rightarrow> sublist (lower (strip s)) (lower (name (h x))))) items"
  by (cases min_price; cases max_price; cases q)
    (auto simp: filter_laptops_def Let_def py_in_sublist intro: filter_cong)

text \<open>
  C6. \<^verbatim>\<open>filter_laptops\<close> returns, in their order in the input, exactly the records that
  satisfy every supplied predicate: price at least \<open>min_price\<close>, price at most
  \<open>max_price\<close>, and a name that, lowercased, contains the trimmed and lowercased query as a
  contiguous substring. A predicate that is not supplied does not constrain, and with
  none supplied the input is returned.
\<close>

theorem filter_laptops_spec:
  "filter_laptops h items min_price max_price q =
     filter (\<lambda>x. (case min_price of None \<Rightarrow> True | Some m \<Rightarrow> m \<le> price (h x)) \<and>
                 (case max_price of None \<Rightarrow> True | Some m \<Rightarrow> price (h x) \<le> m) \<and>
                 (case q of None \<Rightarrow> True
                  | Some s \<Rightarrow> sublist (lower (strip s)) (lower (name (h x))))) items \<and>
   subseq (filter_laptops h items min_price max_price q) items \<and>
   filter_laptops h items None None None = items"
proof -
  have "subseq (filter_laptops h items min_price max_price q) items"
    unfolding filter_laptops_filter by (rule subseq_filter_left)
  moreover have "filter_laptops h items None None None = items"
    by (simp add: filter_laptops_def)
  ultimately show ?thesis
    using filter_laptops_filter [of h items min_price max_price q] by simp
qed

subsection \<open>The API and the listing route on the same bounds\<close>

lemma normalize_range_value_shorthand:
  "(case v of None \<Rightarrow> True | Some n \<Rightarrow> 0 < n \<and> n < 1000) \<Longrightarrow>
     normalize_range_value v = map_option (\<lambda>n. n * 1000) v"
  by (cases v) (simp_all add: normalize_range_value_def)

text \<open>
  C10. \<^verbatim>\<open>/api/laptops\<close> filters with \<^verbatim>\<open>min_price\<close> and \<^verbatim>\<open>max_price\<close> as they are
  given, the listing route with the same values multiplied by 1000 when they lie strictly
  between 0 and 1000: on the same catalogue the API keeps the records with
  \<open>lo \<le> price \<le> hi\<close> and the listing those with \<open>lo * 1000 \<le> price \<le> hi * 1000\<close>
  (each bound only when supplied).
\<close>

theorem api_laptops_does_not_normalize:
  assumes "load_laptops repr dfile st = Inr (items, st1)"
    and "case min_price of None \<Rightarrow> True | Some n \<Rightarrow> 0 < n \<and> n < 1000"
    and "case max_price of None \<Rightarrow> True | Some n \<Rightarrow> 0 < n \<and> n < 1000"
  shows
    "fst (api_laptops repr dfile min_price max_price None st) =
       Inr (ApiResult
              (length (filter (\<lambda>x. (case min_price of None \<Rightarrow> True | Some n \<Rightarrow> n \<le> price (heap st1 x)) \<and>
                                    (case max_price of None \<Rightarrow> True | Some n \<Rightarrow> price (heap st1 x) \<le> n))
                        items))
              (map (heap st1)
                 (filter (\<lambda>x. (case min_price of None \<Rightarrow> True | Some n \<Rightarrow> n \<le> price (heap st1 x)) \<and>
                              (case max_price of None \<Rightarrow> True | Some n \<Rightarrow> price (heap st1 x) \<le> n))
                    items))) \<and>
     fst (home repr dfile min_price max_price None None None st) =
       Inr (Listing
              (map (\<lambda>x. with_pic_urls (heap st1 x))
                 (filter (\<lambda>x. (case min_price of None \<Rightarrow> True | Some n \<Rightarrow> n * 1000 \<le> price (heap st1 x)) \<and>
                              (case max_price of None \<Rightarrow> True | Some n \<Rightarrow> price (heap st1 x) \<le> n * 1000))
                    items))
              (or_empty min_price) (or_empty max_price) []
              (or_empty (map_option (\<lambda>n. n * 1000) min_price))
              (or_empty (map_option (\<lambda>n. n * 1000) max_price))) \<and>
     (\<forall>q. fst (api_laptops repr dfile min_price max_price q st) =
        Inr (ApiResult
               (length (filter_laptops (heap st1) items min_price max_price q))
               (map (heap st1) (filter_laptops (heap st1) items min_price max_price q)))) \<and>
     (\<forall>q. \<exists>c1 c2 c3 c4 c5.
        fst (home repr dfile min_price max_price None None q st) =
        Inr (Listing
               (map (\<lambda>x. with_pic_urls (heap st1 x))
                  (filter_laptops (heap st1) items (map_option (\<lambda>n. n * 1000) min_price)
                     (map_option (\<lambda>n. n * 1000) max_price) q))
               c1 c2 c3 c4 c5))"
proof -
  have api: "fst (api_laptops repr dfile min_price max_price q st) =
        Inr (ApiResult
               (length (filter_laptops (heap st1) items min_price max_price q))
               (map (heap st1) (filter_laptops (heap st1) items min_price max_price q)))" for q
    using assms(1) by (simp add: api_laptops_def Let_def)
  have listing: "fst (home repr dfile min_price max_price None None q st) =
        Inr (Listing
               (map (\<lambda>x. with_pic_urls (heap st1 x))
                  (filter_laptops (heap st1) items (map_option (\<lambda>n. n * 1000) min_price)
                     (map_option (\<lambda>n. n * 1000) max_price) q))
               (or_empty min_price) (or_empty max_price) (case q of Some s \<Rightarrow> s | None \<Rightarrow> [])
               (or_empty (map_option (\<lambda>n. n * 1000) min_price))
               (or_empty (map_option (\<lambda>n. n * 1000) max_price)))" for q
    using assms
    by (simp add: home_def Let_def map_set_pic_urls normalize_range_value_shorthand)
  have f1: "filter_laptops (heap st1) items min_price max_price None =
      filter (\<lambda>x. (case min_price of None \<Rightarrow> True | Some n \<Rightarrow> n \<le> price (heap st1 x)) \<and>
                   (case max_price of None \<Rightarrow> True | Some n \<Rightarrow> price (heap st1 x) \<le> n)) items"
    by (simp add: filter_laptops_filter)
  have f2: "filter_laptops (heap st1) items (map_option (\<lambda>n. n * 1000) min_price)
               (map_option (\<lambda>n. n * 1000) max_price) None =
      filter (\<lambda>x. (case min_price of None \<Rightarrow> True | Some n \<Rightarrow> n * 1000 \<le> price (heap st1 x)) \<and>
                   (case max_price of None \<Rightarrow> True | Some n \<Rightarrow> price (heap st1 x) \<le> n * 1000)) items"
    by (cases min_price; cases max_price) (simp_all add: filter_laptops_filter)
  show ?thesis
    using api [of None] listing [of None] api listing unfolding f1 f2 by auto
qed

theorem api_laptops_does_not_normalize_witness:
  "fst (api_laptops (\<lambda>_. []) example_file (Some 600) None None init_state) =
     Inr (ApiResult 1
            [\<lparr>item_id = ''dell-xps-13-1'', name = ''Dell XPS 13'', price = 150000,
              pics = [''images/a.jpg''], description = [], pic_urls = None\<rparr>]) \<and>
   fst (home (\<lambda>_. []) example_file (Some 600) None None None None init_state) =
     Inr (Listing [] (CInt 600) (CStr []) [] (CInt 600000) (CStr []))"
proof -
  obtain st1 where ld: "load_laptops (\<lambda>_. []) example_file init_state = Inr ([1, 2, 0], st1)"
    and h: "heap st1 0 =
       \<lparr>item_id = ''dell-xps-13-1'', name = ''Dell XPS 13'', price = 150000,
        pics = [''images/a.jpg''], description = [], pic_urls = None\<rparr>"
      "price (heap st1 (Suc 0)) = 500" "price (heap st1 2) = 500"
    by (rule example_load [of "\<lambda>_. []"]) simp
  show ?thesis
    using api_laptops_does_not_normalize [OF ld, of "Some 600" None]
    by (simp add: h or_empty_def filter_laptops_def)
qed

subsection \<open>The price parser\<close>

text \<open>
  C1 (the code raises where the claim says it cannot). After the removal of everything
  but digits and dots the text can still hold two dots, or a dot and no digit, and
  \<^verbatim>\<open>float\<close> rejects both; a float that is infinite or not a number has no integer
  value. In each case \<^verbatim>\<open>parse_price\<close> ends in an exception.
\<close>

theorem parse_price_raises:
  "parse_price repr (JStr ''Rs. 45,000.00'') =
     Inl (ValueError (''could not convert string to float: '' @ [CHR 0x27] @ ''.45000.00'' @ [CHR 0x27])) \<and>
   parse_price repr (JStr ''Rs.'') =
     Inl (ValueError (''could not convert string to float: '' @ [CHR 0x27] @ ''.'' @ [CHR 0x27])) \<and>
   parse_price repr (JFloat PosInf) =
     Inl (OverflowError ''cannot convert float infinity to integer'') \<and>
   parse_price repr (JFloat NaN) = Inl (ValueError ''cannot convert float NaN to integer'')"
  by code_simp

lemma load_laptops_raises_on_price:
  "(case load_laptops repr
           (Some (1, Some (JList [JDict [(''name'', JStr ''A''), (''price'', JStr ''Rs.'')]])))
           init_state of
      Inl e \<Rightarrow>
        e = ValueError (''could not convert string to float: '' @ [CHR 0x27] @ ''.'' @ [CHR 0x27])
    | Inr r \<Rightarrow> False)"
  by code_simp

lemma digit_val_nonneg: "0 \<le> digit_val c"
proof (cases "map_of (zip ''0123456789'' [0 .. 9]) c")
  case None
  show ?thesis unfolding digit_val_def None by simp
next
  case (Some d)
  then have "d \<in> set [0 .. 9]"
    by (meson map_of_SomeD set_zip_rightD)
  then have "0 \<le> d" by simp
  then show ?thesis unfolding digit_val_def Some by simp
qed

lemma foldl_digits_nonneg: "0 \<le> a \<Longrightarrow> 0 \<le> foldl (\<lambda>a c. 10 * a + digit_val c) a s"
  by (induction s arbitrary: a) (simp_all add: digit_val_nonneg)

lemma int_of_digits_nonneg: "0 \<le> int_of_digits s"
  by (simp add: int_of_digits_def foldl_digits_nonneg)

lemma pow2_pos: "0 < pow2 k"
  by (simp add: pow2_def)

lemma round_half_even_nonneg: "0 \<le> q \<Longrightarrow> 0 \<le> round_half_even q"
  by (auto simp: round_half_even_def Let_def)

lemma round_double_nonneg:
  assumes "0 \<le> n" "0 < d" "round_double n d = Finite v"
  shows "0 \<le> v"
proof (cases "n = 0")
  case True
  with assms show ?thesis by (simp add: round_double_def)
next
  case False
  define q :: rat where "q = of_int n / of_int d"
  have q: "0 \<le> q" using assms by (simp add: q_def)
  obtain u where u: "0 < u" "v = of_int (round_half_even (q / u)) * u"
    using assms(3) False pow2_pos
    by (auto simp: round_double_def Let_def q_def split: if_splits)
  from q u(1) have "0 \<le> round_half_even (q / u)"
    by (intro round_half_even_nonneg) simp
  with u show ?thesis by simp
qed

lemma round_double_cases: "round_double n d = PosInf \<or> (\<exists>v. round_double n d = Finite v)"
  by (simp add: round_double_def Let_def)

lemma py_float_cases:
  assumes "py_float s = Inr x"
  shows "x = PosInf \<or> (\<exists>v. x = Finite v \<and> 0 \<le> v)"
proof -
  from assms obtain n d where nd: "x = round_double n d" "0 \<le> n" "0 < (d :: int)"
    by (auto simp: py_float_def Let_def int_of_digits_nonneg split: if_splits)
  then show ?thesis
    using round_double_cases [of n d] round_double_nonneg [of n d] by auto
qed

lemma py_trunc_nonneg: "0 \<le> q \<Longrightarrow> 0 \<le> py_trunc q"
  by (simp add: py_trunc_def)

lemma py_trunc_nonneg_iff: "0 \<le> py_trunc q \<longleftrightarrow> - 1 < q"
  by (auto simp: py_trunc_def ceiling_le_iff not_le less_ceiling_iff)

lemma parse_price_text_nonneg:
  assumes "parse_price repr v = Inr n"
    and "\<forall>i. v \<noteq> JInt i" "\<forall>x. v \<noteq> JFloat x"
  shows "0 \<le> n"
proof -
  have "\<exists>s. 0 \<le> n \<or> (\<exists>x. py_float s = Inr x \<and> int_of_float x = Inr n)"
    using assms
    by (cases v) (auto simp: parse_price_def Let_def split: if_splits sum.splits)
  then obtain s where "0 \<le> n \<or> (\<exists>x. py_float s = Inr x \<and> int_of_float x = Inr n)" ..
  then show ?thesis
  proof
    assume "0 \<le> n" then show ?thesis by simp
  next
    assume "\<exists>x. py_float s = Inr x \<and> int_of_float x = Inr n"
    then obtain x where x: "py_float s = Inr x" "int_of_float x = Inr n" by blast
    from py_float_cases [OF x(1)] x(2) show ?thesis
      by (auto simp: int_of_float_def py_trunc_nonneg)
  qed
qed

subsection \<open>The loop of the loader\<close>

lemma alloc_simps [simp]:
  "next_addr (alloc d st) = Suc (next_addr st)"
  "heap (alloc d st) x = (if x = next_addr st then d else heap st x)"
  "cache_mtime (alloc d st) = cache_mtime st"
  "cache_items (alloc d st) = cache_items st"
  by (simp_all add: alloc_def)

lemma build_items_frame:
  "build_items repr idx rows st = Inr (built, st1) \<Longrightarrow>
     built = [next_addr st ..< next_addr st1] \<and> next_addr st \<le> next_addr st1 \<and>
     (\<forall>x < next_addr st. heap st1 x = heap st x) \<and>
     cache_mtime st1 = cache_mtime st \<and> cache_items st1 = cache_items st"
proof (induction rows arbitrary: idx st built st1)
  case Nil
  then show ?case by simp
next
  case (Cons row rows)
  show ?case
  proof (cases "\<exists>kv. row = JDict kv")
    case False
    then have "build_items repr (idx + 1) rows st = Inr (built, st1)"
      using Cons.prems by (cases row) simp_all
    from Cons.IH [OF this] show ?thesis .
  next
    case True
    then obtain kv where row: "row = JDict kv" ..
    with Cons.prems obtain d items where d: "make_item repr idx kv = Inr d"
      and rest: "build_items repr (idx + 1) rows (alloc d st) = Inr (items, st1)"
      and built: "built = next_addr st # items"
      by (auto split: sum.splits)
    from Cons.IH [OF rest] show ?thesis
      by (auto simp: built upt_conv_Cons)
  qed
qed

lemma build_items_values:
  "build_items repr idx rows st = Inr (built, st1) \<Longrightarrow>
     map (\<lambda>(i, kv). make_item repr i kv) (entries_from idx rows) =
     map (\<lambda>x. Inr (heap st1 x)) built"
proof (induction rows arbitrary: idx st built st1)
  case Nil
  then show ?case by simp
next
  case (Cons row rows)
  show ?case
  proof (cases "\<exists>kv. row = JDict kv")
    case False
    then have "build_items repr (idx + 1) rows st = Inr (built, st1)"
      and "entries_from idx (row # rows) = entries_from (Suc idx) rows"
      using Cons.prems by (cases row; simp)+
    with Cons.IH [of "idx + 1" st built st1] show ?thesis by simp
  next
    case True
    then obtain kv where row: "row = JDict kv" ..
    with Cons.prems obtain d items where d: "make_item repr idx kv = Inr d"
      and rest: "build_items repr (idx + 1) rows (alloc d st) = Inr (items, st1)"
      and built: "built = next_addr st # items"
      by (auto split: sum.splits)
    from build_items_frame [OF rest] have "heap st1 (next_addr st) = d"
      by simp
    with Cons.IH [OF rest] d show ?thesis
      by (simp add: row built)
  qed
qed

lemma build_items_error:
  "build_items repr idx rows st = Inl e \<Longrightarrow>
     \<exists>(i, kv) \<in> set (entries_from idx rows). make_item repr i kv = Inl e"
proof (induction rows arbitrary: idx st)
  case Nil
  then show ?case by simp
next
  case (Cons row rows)
  show ?case
  proof (cases "\<exists>kv. row = JDict kv")
    case False
    then have "build_items repr (idx + 1) rows st = Inl e"
      and "entries_from idx (row # rows) = entries_from (Suc idx) rows"
      using Cons.prems by (cases row; simp)+
    with Cons.IH [of "idx + 1" st] show ?thesis by simp
  next
    case True
    then obtain kv where row: "row = JDict kv" ..
    show ?thesis
    proof (cases "make_item repr idx kv")
      case (Inl e')
      with Cons.prems row show ?thesis by simp
    next
      case (Inr d)
      with Cons.prems row have "build_items repr (idx + 1) rows (alloc d st) = Inl e"
        by (simp split: sum.splits prod.splits)
      from Cons.IH [OF this] show ?thesis by (auto simp: row)
    qed
  qed
qed

lemma build_items_succeeds:
  "(\<forall>(i, kv) \<in> set (entries_from idx rows). \<exists>d. make_item repr i kv = Inr d) \<Longrightarrow>
     \<exists>built st1. build_items repr idx rows st = Inr (built, st1)"
proof (cases "build_items repr idx rows st")
  case (Inl e)
  assume ok: "\<forall>(i, kv) \<in> set (entries_from idx rows). \<exists>d. make_item repr i kv = Inr d"
  from build_items_error [OF Inl] ok show ?thesis by fastforce
next
  case (Inr r)
  then show ?thesis by (cases r) simp
qed

lemma entries_from_Cons:
  "set (entries_from idx (row # rows)) =
     {(i, kv). i = idx \<and> row = JDict kv} \<union> set (entries_from (Suc idx) rows)"
  by (cases row) auto

lemma entries_from_mem:
  "(i, kv) \<in> set (entries_from idx rows) \<longleftrightarrow>
     idx \<le> i \<and> i < idx + length rows \<and> rows ! (i - idx) = JDict kv"
proof (induction rows arbitrary: idx)
  case Nil
  then show ?case by simp
next
  case (Cons row rows)
  note IH = Cons.IH [of "Suc idx"]
  consider "i < idx" | "i = idx" | "idx < i" by linarith
  then show ?case
  proof cases
    case 1
    then show ?thesis unfolding entries_from_Cons using IH by auto
  next
    case 2
    then show ?thesis unfolding entries_from_Cons using IH by auto
  next
    case 3
    then have "i - idx = Suc (i - Suc idx)" by simp
    then have "(row # rows) ! (i - idx) = rows ! (i - Suc idx)" by simp
    with 3 show ?thesis unfolding entries_from_Cons using IH by auto
  qed
qed

lemma entries_from_lower: "(i, kv) \<in> set (entries_from idx rows) \<Longrightarrow> idx \<le> i"
  by (simp add: entries_from_mem)

lemma entries_from_increasing: "sorted_wrt (<) (map fst (entries_from idx rows))"
proof (induction rows arbitrary: idx)
  case Nil
  then show ?case by simp
next
  case (Cons row rows)
  have "idx < i" if "(i, kv) \<in> set (entries_from (Suc idx) rows)" for i kv
    using entries_from_lower [OF that] by simp
  with Cons.IH [of "Suc idx"] show ?case
    by (cases row) auto
qed

lemma entries_from_length:
  "length (entries_from idx rows) = length (filter (\<lambda>row. \<exists>kv. row = JDict kv) rows)"
proof (induction rows arbitrary: idx)
  case Nil
  then show ?case by simp
next
  case (Cons row rows)
  then show ?case by (cases row) simp_all
qed

subsection \<open>Decimal numerals and identifiers\<close>

lemma digit_char_table:
  "\<forall>d \<in> set [0 ..< 10]. is_digit (digit_char d) \<and> digit_val (digit_char d) = int d"
  by code_simp

lemma is_digit_digit_char: "d < 10 \<Longrightarrow> is_digit (digit_char d)"
  using digit_char_table by simp

lemma digit_val_digit_char: "d < 10 \<Longrightarrow> digit_val (digit_char d) = int d"
  using digit_char_table by simp

lemma str_nat_digits: "c \<in> set (str_nat n) \<Longrightarrow> is_digit c"
proof (induction n rule: str_nat.induct)
  case (1 n)
  show ?case
  proof (cases "n < 10")
    case True
    with "1.prems" show ?thesis
      by (subst (asm) str_nat.simps) (simp add: is_digit_digit_char)
  next
    case False
    with "1.prems" have "c \<in> set (str_nat (n div 10)) \<or> c = digit_char (n mod 10)"
      by (subst (asm) str_nat.simps) auto
    with "1.IH" False show ?thesis
      by (auto simp: is_digit_digit_char)
  qed
qed

lemma int_of_digits_snoc: "int_of_digits (s @ [c]) = 10 * int_of_digits s + digit_val c"
  by (simp add: int_of_digits_def)

lemma int_of_digits_str_nat: "int_of_digits (str_nat n) = int n"
proof (induction n rule: str_nat.induct)
  case (1 n)
  show ?case
  proof (cases "n < 10")
    case True
    then show ?thesis
      by (subst str_nat.simps) (simp add: int_of_digits_def digit_val_digit_char)
  next
    case False
    have "int_of_digits (str_nat n) =
        10 * int_of_digits (str_nat (n div 10)) + digit_val (digit_char (n mod 10))"
      using False by (subst str_nat.simps) (simp add: int_of_digits_snoc)
    also have "\<dots> = 10 * int (n div 10) + int (n mod 10)"
      using "1.IH" False by (simp add: digit_val_digit_char)
    also have "\<dots> = int (10 * (n div 10) + n mod 10)"
      by (simp only: of_nat_add of_nat_mult of_nat_numeral)
    also have "\<dots> = int n"
      by (simp only: mult_div_mod_eq)
    finally show ?thesis .
  qed
qed

lemma str_nat_inj:
  assumes "str_nat n = str_nat m"
  shows "n = m"
proof -
  have "int n = int_of_digits (str_nat n)"
    by (simp only: int_of_digits_str_nat)
  also have "\<dots> = int m"
    unfolding assms by (simp only: int_of_digits_str_nat)
  finally show ?thesis by simp
qed

lemma hyphen_not_digit: "\<not> is_digit (CHR ''-'')"
  by (simp add: is_digit_def)

lemma str_nat_no_hyphen: "CHR ''-'' \<notin> set (str_nat n)"
  using str_nat_digits hyphen_not_digit by blast

lemma last_segment:
  "rev (takeWhile (\<lambda>c. c \<noteq> CHR ''-'') (rev (s @ ''-'' @ str_nat n))) = str_nat n"
proof -
  have "takeWhile (\<lambda>c. c \<noteq> CHR ''-'') (rev (str_nat n) @ CHR ''-'' # rev s) = rev (str_nat n)"
    by (rule takeWhile_tail [THEN trans, rotated -1]) (use str_nat_no_hyphen in auto)
  then show ?thesis by simp
qed

lemma id_position_inj:
  assumes "s @ ''-'' @ str_nat n = t @ ''-'' @ str_nat m"
  shows "n = m"
proof -
  have "str_nat n = rev (takeWhile (\<lambda>c. c \<noteq> CHR ''-'') (rev (s @ ''-'' @ str_nat n)))"
    by (simp only: last_segment)
  also have "\<dots> = str_nat m"
    unfolding assms by (simp only: last_segment)
  finally show ?thesis by (rule str_nat_inj)
qed

subsection \<open>The slug of a name\<close>

lemma hyphen_not_alnum: "\<not> is_lower_alnum (CHR ''-'')"
  by (simp add: is_lower_alnum_def)

lemma space_not_alnum: "py_isspace c \<Longrightarrow> \<not> is_lower_alnum c"
  by (auto simp: py_isspace_def is_lower_alnum_def)

lemma upper_chars_table:
  "\<forall>c \<in> set upper_chars. \<not> py_isspace c \<and> \<not> py_isspace (lower_char c)"
  by code_simp

lemma length_upper_lower: "length upper_chars = length lower_chars"
  by (simp add: upper_chars_def lower_chars_def)

lemma lower_char_other: "c \<notin> set upper_chars \<Longrightarrow> lower_char c = c"
  using map_of_zip_is_None [OF length_upper_lower, of c]
  by (simp add: lower_char_def)

lemma isspace_lower_char: "py_isspace (lower_char c) \<longleftrightarrow> py_isspace c"
  using upper_chars_table lower_char_other by (cases "c \<in> set upper_chars") auto

lemma lower_strip: "lower (strip s) = strip (lower s)"
proof -
  have comp: "py_isspace \<circ> lower_char = py_isspace"
    by (rule ext) (simp add: isspace_lower_char)
  show ?thesis
    by (simp add: lower_def strip_def strip_chars_def dropWhile_map rev_map comp)
qed

lemma sub_non_alnum_dropWhile_hd:
  "\<not> startswith (sub_non_alnum (dropWhile (\<lambda>c. \<not> is_lower_alnum c) cs)) ''-''"
proof (cases "dropWhile (\<lambda>c. \<not> is_lower_alnum c) cs")
  case Nil
  show ?thesis unfolding Nil by (simp add: startswith_def)
next
  case (Cons d ds)
  have "dropWhile (\<lambda>c. \<not> is_lower_alnum c) cs \<noteq> []"
    unfolding Cons by simp
  from hd_dropWhile [OF this] have "is_lower_alnum d"
    unfolding Cons by simp
  with hyphen_not_alnum have "d \<noteq> CHR ''-''" by auto
  with \<open>is_lower_alnum d\<close> show ?thesis
    unfolding Cons by (simp add: startswith_def)
qed

lemma sub_hyphens_sub_non_alnum: "sub_hyphens (sub_non_alnum s) = sub_non_alnum s"
proof (induction s rule: sub_non_alnum.induct)
  case 1
  then show ?case by simp
next
  case (2 c cs)
  show ?case
  proof (cases "is_lower_alnum c")
    case True
    with hyphen_not_alnum have "c \<noteq> CHR ''-''" by auto
    with 2 True show ?thesis by simp
  next
    case False
    with 2 sub_non_alnum_dropWhile_hd [of cs] show ?thesis by simp
  qed
qed

lemma sub_non_alnum_drop_leading:
  "dropWhile (\<lambda>c. c = CHR ''-'') (sub_non_alnum (dropWhile (\<lambda>c. \<not> is_lower_alnum c) u)) =
   dropWhile (\<lambda>c. c = CHR ''-'') (sub_non_alnum u)"
  by (cases u) simp_all

lemma sub_non_alnum_snoc:
  "\<not> is_lower_alnum d \<Longrightarrow>
     sub_non_alnum (s @ [d]) = sub_non_alnum s @ ''-'' \<or> sub_non_alnum (s @ [d]) = sub_non_alnum s"
proof (induction s rule: sub_non_alnum.induct)
  case 1
  then show ?case by simp
next
  case (2 c cs)
  show ?case
  proof (cases "is_lower_alnum c")
    case True
    with 2 show ?thesis by auto
  next
    case False
    show ?thesis
    proof (cases "\<forall>x \<in> set cs. \<not> is_lower_alnum x")
      case True
      then have e1: "dropWhile (\<lambda>c. \<not> is_lower_alnum c) cs = []"
        by simp
      from True "2.prems"
      have e2: "dropWhile (\<lambda>c. \<not> is_lower_alnum c) (cs @ [d]) = []"
        by simp
      have "sub_non_alnum ((c # cs) @ [d]) = ''-''"
        by (simp only: append_Cons sub_non_alnum.simps False if_False e2)
      moreover have "sub_non_alnum (c # cs) = ''-''"
        by (simp only: sub_non_alnum.simps False if_False e1)
      ultimately show ?thesis by simp
    next
      case nall: False
      then have "dropWhile (\<lambda>c. \<not> is_lower_alnum c) (cs @ [d]) =
          dropWhile (\<lambda>c. \<not> is_lower_alnum c) cs @ [d]"
        by (auto simp: dropWhile_append)
      with "2.IH"(2) [OF False "2.prems"] False show ?thesis by auto
    qed
  qed
qed

lemma strip_hyphens_snoc:
  "strip_chars (\<lambda>c. c = CHR ''-'') (x @ ''-'') = strip_chars (\<lambda>c. c = CHR ''-'') x"
proof (cases "\<forall>c \<in> set x. c = CHR ''-''")
  case True
  then have "dropWhile (\<lambda>c. c = CHR ''-'') (x @ ''-'') = []"
    and "dropWhile (\<lambda>c. c = CHR ''-'') x = []"
    by simp_all
  then show ?thesis by (simp only: strip_chars_def)
next
  case False
  then have "dropWhile (\<lambda>c. c = CHR ''-'') (x @ ''-'') = dropWhile (\<lambda>c. c = CHR ''-'') x @ ''-''"
    by (auto simp: dropWhile_append)
  then show ?thesis by (simp add: strip_chars_def)
qed

lemma strip_hyphens_Cons:
  "strip_chars (\<lambda>c. c = CHR ''-'') (CHR ''-'' # x) = strip_chars (\<lambda>c. c = CHR ''-'') x"
  by (simp add: strip_chars_def)

lemma slug_ignores_leading:
  assumes "\<not> is_lower_alnum c"
  shows "strip_chars (\<lambda>c. c = CHR ''-'') (sub_non_alnum (c # s)) =
     strip_chars (\<lambda>c. c = CHR ''-'') (sub_non_alnum s)"
proof -
  have "sub_non_alnum (c # s) = CHR ''-'' # sub_non_alnum (dropWhile (\<lambda>c. \<not> is_lower_alnum c) s)"
    using assms by simp
  then show ?thesis
    by (simp only: strip_hyphens_Cons) (simp only: strip_chars_def sub_non_alnum_drop_leading)
qed

lemma slug_ignores_trailing:
  assumes "\<not> is_lower_alnum d"
  shows "strip_chars (\<lambda>c. c = CHR ''-'') (sub_non_alnum (s @ [d])) =
     strip_chars (\<lambda>c. c = CHR ''-'') (sub_non_alnum s)"
proof -
  from sub_non_alnum_snoc [OF assms, of s]
  consider "sub_non_alnum (s @ [d]) = sub_non_alnum s @ ''-''"
    | "sub_non_alnum (s @ [d]) = sub_non_alnum s"
    by blast
  then show ?thesis
  proof cases
    case 1
    show ?thesis unfolding 1 by (rule strip_hyphens_snoc)
  next
    case 2
    show ?thesis unfolding 2 ..
  qed
qed

lemma slug_ignores_left_strip:
  "strip_chars (\<lambda>c. c = CHR ''-'') (sub_non_alnum (dropWhile py_isspace t)) =
   strip_chars (\<lambda>c. c = CHR ''-'') (sub_non_alnum t)"
proof (induction t)
  case Nil
  show ?case by simp
next
  case (Cons c t)
  show ?case
  proof (cases "py_isspace c")
    case True
    then have "dropWhile py_isspace (c # t) = dropWhile py_isspace t"
      by simp
    with Cons slug_ignores_leading [OF space_not_alnum [OF True], of t]
    show ?thesis by (simp only:)
  next
    case False
    then have "dropWhile py_isspace (c # t) = c # t"
      by simp
    then show ?thesis by (simp only:)
  qed
qed

lemma slug_ignores_right_strip:
  "strip_chars (\<lambda>c. c = CHR ''-'') (sub_non_alnum (rev (dropWhile py_isspace (rev t)))) =
   strip_chars (\<lambda>c. c = CHR ''-'') (sub_non_alnum t)"
proof (induction t rule: rev_induct)
  case Nil
  show ?case by simp
next
  case (snoc d t)
  show ?case
  proof (cases "py_isspace d")
    case True
    then have "rev (dropWhile py_isspace (rev (t @ [d]))) = rev (dropWhile py_isspace (rev t))"
      by simp
    with snoc slug_ignores_trailing [OF space_not_alnum [OF True], of t]
    show ?thesis by (simp only:)
  next
    case False
    then have "rev (dropWhile py_isspace (rev (t @ [d]))) = t @ [d]"
      by simp
    then show ?thesis by (simp only:)
  qed
qed

lemma slug_ignores_strip:
  "strip_chars (\<lambda>c. c = CHR ''-'') (sub_non_alnum (strip t)) =
   strip_chars (\<lambda>c. c = CHR ''-'') (sub_non_alnum t)"
proof -
  have "strip t = rev (dropWhile py_isspace (rev (dropWhile py_isspace t)))"
    by (simp only: strip_def strip_chars_def)
  then show ?thesis
    by (simp only: slug_ignores_right_strip slug_ignores_left_strip)
qed

lemma slugify_eq_spec: "slugify text = slugify_spec text"
proof -
  have "strip_chars (\<lambda>c. c = CHR ''-'') (sub_hyphens (sub_non_alnum (lower (strip text)))) =
      strip_chars (\<lambda>c. c = CHR ''-'') (sub_non_alnum (lower text))"
    by (simp only: sub_hyphens_sub_non_alnum lower_strip slug_ignores_strip)
  then show ?thesis
    by (simp only: slugify_def slugify_spec_def Let_def)
qed

subsection \<open>Records made by the loader\<close>

lemma make_item_fields:
  assumes "make_item repr i kv = Inr d"
  shows "item_id d = slugify_spec (name d) @ ''-'' @ str_nat (i + 1)"
    and "parse_price repr (dict_get kv ''price'' (JInt 0)) = Inr (price d)"
    and "pic_urls d = None"
    and "name d \<noteq> []"
  using assms
  by (auto simp: make_item_def Let_def slugify_eq_spec str_nat.simps [of "Suc i"]
      split: sum.splits if_splits)

lemma built_values_nth:
  assumes "build_items repr idx rows st = Inr (built, st1)"
  shows "length built = length (entries_from idx rows)"
    and "k < length built \<Longrightarrow>
      make_item repr (fst (entries_from idx rows ! k)) (snd (entries_from idx rows ! k)) =
        Inr (heap st1 (built ! k))"
proof -
  note eq = build_items_values [OF assms]
  from arg_cong [OF eq, of length] show len: "length built = length (entries_from idx rows)"
    by simp
  assume k: "k < length built"
  from arg_cong [OF eq, of "\<lambda>xs. xs ! k"] k len
  show "make_item repr (fst (entries_from idx rows ! k)) (snd (entries_from idx rows ! k)) =
        Inr (heap st1 (built ! k))"
    by (simp add: case_prod_beta)
qed

lemma built_from_entry:
  assumes "build_items repr idx rows st = Inr (built, st1)" and "x \<in> set built"
  shows "\<exists>i kv. idx \<le> i \<and> i < idx + length rows \<and> rows ! (i - idx) = JDict kv \<and>
           make_item repr i kv = Inr (heap st1 x)"
proof -
  from assms(2) obtain k where k: "k < length built" "built ! k = x"
    by (auto simp: in_set_conv_nth)
  let ?e = "entries_from idx rows ! k"
  from built_values_nth [OF assms(1)] k
  have "?e \<in> set (entries_from idx rows)" and "make_item repr (fst ?e) (snd ?e) = Inr (heap st1 x)"
    by auto
  moreover from this(1) have "(fst ?e, snd ?e) \<in> set (entries_from idx rows)"
    by simp
  ultimately show ?thesis
    unfolding entries_from_mem by blast
qed

lemma built_ids_distinct:
  assumes "build_items repr idx rows st = Inr (built, st1)"
  shows "distinct (map (\<lambda>x. item_id (heap st1 x)) built)"
proof -
  let ?E = "entries_from idx rows"
  note vals = built_values_nth [OF assms]
  have inc: "sorted_wrt (<) (map fst ?E)"
    by (rule entries_from_increasing)
  have "k = k'" if k: "k < length built" "k' < length built"
    and eq: "item_id (heap st1 (built ! k)) = item_id (heap st1 (built ! k'))" for k k'
  proof -
    have "slugify_spec (name (heap st1 (built ! k))) @ ''-'' @ str_nat (fst (?E ! k) + 1) =
        slugify_spec (name (heap st1 (built ! k'))) @ ''-'' @ str_nat (fst (?E ! k') + 1)"
      using eq
      by (simp only: make_item_fields(1) [OF vals(2) [OF k(1)]]
          make_item_fields(1) [OF vals(2) [OF k(2)]])
    then have "fst (?E ! k) + 1 = fst (?E ! k') + 1"
      by (rule id_position_inj)
    then have same: "map fst ?E ! k = map fst ?E ! k'"
      using k vals(1) by simp
    show ?thesis
    proof (rule ccontr)
      assume "k \<noteq> k'"
      then consider "k < k'" | "k' < k" by linarith
      then show False
        using sorted_wrt_nth_less [OF inc, of k k'] sorted_wrt_nth_less [OF inc, of k' k]
          same k vals(1)
        by cases auto
    qed
  qed
  then show ?thesis
    by (auto simp: distinct_conv_nth)
qed

subsection \<open>The loader and its cache\<close>

lemma load_laptops_hit:
  "cache_mtime st = Some mt \<Longrightarrow> cache_items st \<noteq> [] \<Longrightarrow>
     load_laptops repr (Some (mt, content)) st = Inr (cache_items st, st)"
  by (simp add: load_laptops_def)

lemma load_laptops_miss:
  "\<not> (cache_mtime st = Some mt \<and> cache_items st \<noteq> []) \<Longrightarrow>
     load_laptops repr (Some (mt, content)) st =
       (case content of
          None \<Rightarrow> Inl JSONDecodeError
        | Some (JList rows) \<Rightarrow>
            (case build_items repr 0 rows st of
               Inl e \<Rightarrow> Inl e
             | Inr (built, st1) \<Rightarrow>
                 Inr (sort_key (\<lambda>x. price (heap st1 x)) built,
                      st1\<lparr>cache_mtime := Some mt,
                          cache_items := sort_key (\<lambda>x. price (heap st1 x)) built\<rparr>))
        | Some _ \<Rightarrow> Inl (ValueError ''laptops.json must be a LIST of objects.''))"
  by (auto simp: load_laptops_def Let_def split: option.splits json.splits sum.splits)

lemma load_laptops_miss_success:
  assumes "load_laptops repr (Some (mt, content)) st = Inr (items, st')"
    and "\<not> (cache_mtime st = Some mt \<and> cache_items st \<noteq> [])"
  obtains rows built st1 where "content = Some (JList rows)"
    and "build_items repr 0 rows st = Inr (built, st1)"
    and "items = sort_key (\<lambda>x. price (heap st1 x)) built"
    and "st' = st1\<lparr>cache_mtime := Some mt, cache_items := items\<rparr>"
  using assms(1) unfolding load_laptops_miss [OF assms(2)]
  by (auto split: option.splits json.splits sum.splits)

lemma load_laptops_cases:
  assumes "load_laptops repr dfile st = Inr (items, st')"
  obtains (hit) mt content where "dfile = Some (mt, content)" "cache_mtime st = Some mt"
      "cache_items st \<noteq> []" "items = cache_items st" "st' = st"
  | (miss) mt rows built st1 where "dfile = Some (mt, Some (JList rows))"
      "\<not> (cache_mtime st = Some mt \<and> cache_items st \<noteq> [])"
      "build_items repr 0 rows st = Inr (built, st1)"
      "items = sort_key (\<lambda>x. price (heap st1 x)) built"
      "st' = st1\<lparr>cache_mtime := Some mt, cache_items := items\<rparr>"
proof -
  from assms obtain mt content where f: "dfile = Some (mt, content)"
    by (cases dfile) (auto simp: load_laptops_def)
  show ?thesis
  proof (cases "cache_mtime st = Some mt \<and> cache_items st \<noteq> []")
    case True
    with assms f have "items = cache_items st" "st' = st"
      by (auto simp: load_laptops_hit)
    with True f show ?thesis by (intro hit) auto
  next
    case False
    from assms [unfolded f] False obtain rows built st1 where "content = Some (JList rows)"
      "build_items repr 0 rows st = Inr (built, st1)"
      "items = sort_key (\<lambda>x. price (heap st1 x)) built"
      "st' = st1\<lparr>cache_mtime := Some mt, cache_items := items\<rparr>"
      by (rule load_laptops_miss_success)
    with False f show ?thesis by (intro miss) auto
  qed
qed

lemma load_laptops_result_cached:
  "load_laptops repr dfile st = Inr (items, st') \<Longrightarrow> cache_items st' = items"
  by (erule load_laptops_cases) simp_all

lemma distinct_map_sort_key:
  "distinct (map g (sort_key f xs)) \<longleftrightarrow> distinct (map g xs)"
  by (simp add: distinct_map)

lemma cache_inv_built:
  assumes "build_items repr 0 rows st = Inr (built, st1)"
    and "items = sort_key (\<lambda>x. price (heap st1 x)) built"
  shows "cache_inv (st1\<lparr>cache_mtime := m, cache_items := items\<rparr>)"
proof -
  from build_items_frame [OF assms(1)] have "\<forall>x \<in> set built. x < next_addr st1"
    by auto
  moreover have "sorted (map (\<lambda>x. price (heap st1 x)) items)"
    unfolding assms(2) by (rule sorted_sort_key)
  moreover have "distinct (map (\<lambda>x. item_id (heap st1 x)) items)"
    unfolding assms(2) distinct_map_sort_key by (rule built_ids_distinct [OF assms(1)])
  moreover have "\<exists>i. item_id (heap st1 x) = slugify_spec (name (heap st1 x)) @ ''-'' @ str_nat (Suc i)"
    if "x \<in> set built" for x
  proof -
    from built_from_entry [OF assms(1) that] obtain i kv
      where "make_item repr i kv = Inr (heap st1 x)" by blast
    from make_item_fields(1) [OF this] show ?thesis by auto
  qed
  ultimately show ?thesis
    by (simp add: cache_inv_def assms(2))
qed

lemma cache_inv_load:
  assumes "cache_inv st" and "load_laptops repr dfile st = Inr (items, st')"
  shows "cache_inv st'"
  using assms(2)
proof (cases rule: load_laptops_cases)
  case hit
  with assms(1) show ?thesis by simp
next
  case miss
  then show ?thesis by (simp only: cache_inv_built)
qed

lemma cache_inv_set_pic_urls:
  "cache_inv st \<Longrightarrow> cache_inv (st\<lparr>heap := set_pic_urls xs (heap st)\<rparr>)"
  by (simp add: cache_inv_def set_pic_urls_apply if_distrib [of item_id] if_distrib [of name]
      if_distrib [of price] cong: if_cong)

lemma cache_inv_serve:
  assumes "cache_inv st"
  shows "cache_inv (snd (serve repr dfile req st))"
proof (cases "load_laptops repr dfile st")
  case (Inl e)
  with assms show ?thesis
    by (cases req) (simp_all add: home_def product_page_def api_laptops_def)
next
  case (Inr r)
  obtain items st1 where r: "r = (items, st1)" by (cases r)
  from cache_inv_load [OF assms Inr [unfolded r]] have inv1: "cache_inv st1" .
  show ?thesis
  proof (cases req)
    case (Home a b c d q)
    with Inr r cache_inv_set_pic_urls [OF inv1] show ?thesis
      by (simp add: home_def Let_def)
  next
    case (ProductPage w)
    with Inr r inv1 show ?thesis
      by (simp add: product_page_def Let_def split: option.splits)
  next
    case (ApiLaptops a b q)
    with Inr r inv1 show ?thesis
      by (simp add: api_laptops_def Let_def)
  qed
qed

lemma reachable_cache_inv: "reachable repr st \<Longrightarrow> cache_inv st"
proof (induction rule: reachable.induct)
  case start
  show ?case by (simp add: cache_inv_def init_state_def)
next
  case (step st dfile req)
  then show ?case by (simp only: cache_inv_serve)
qed

subsection \<open>Order of the loaded catalogue\<close>

lemma filter_keeps_order:
  assumes "sorted_wrt R (filter P xs)" and "a < b" "b < length xs" and "P (xs ! a)" "P (xs ! b)"
  shows "R (xs ! a) (xs ! b)"
proof -
  from assms(2,3) have a: "a < length xs" by simp
  have split: "xs = take a xs @ xs ! a # drop (Suc a) xs"
    using a by (rule id_take_nth_drop)
  have "drop (Suc a) xs ! (b - Suc a) = xs ! b"
    using assms(2,3) by simp
  moreover have "b - Suc a < length (drop (Suc a) xs)"
    using assms(2,3) by simp
  ultimately have "xs ! b \<in> set (drop (Suc a) xs)"
    by (metis nth_mem)
  with assms(5) have mem: "xs ! b \<in> set (filter P (drop (Suc a) xs))"
    by simp
  have "filter P xs = filter P (take a xs) @ xs ! a # filter P (drop (Suc a) xs)"
    by (subst split) (simp add: assms(4))
  with assms(1) have "\<forall>y \<in> set (filter P (drop (Suc a) xs)). R (xs ! a) y"
    by (simp add: sorted_wrt_append)
  with mem show ?thesis by blast
qed

lemma built_source_positions:
  assumes "build_items repr 0 rows st = Inr (built, st1)"
    and "items = sort_key (\<lambda>x. price (heap st1 x)) built"
  shows "\<exists>ps. length ps = length items \<and>
          (\<forall>k < length items. ps ! k < length rows \<and>
             (\<exists>kv. rows ! (ps ! k) = JDict kv \<and>
                    make_item repr (ps ! k) kv = Inr (heap st1 (items ! k)))) \<and>
          (\<forall>a b. a < b \<and> b < length items \<and>
                 price (heap st1 (items ! a)) = price (heap st1 (items ! b)) \<longrightarrow>
                 ps ! a < ps ! b)"
proof -
  let ?E = "entries_from 0 rows"
  let ?n = "next_addr st"
  let ?f = "\<lambda>x. price (heap st1 x)"
  let ?pos = "\<lambda>x. fst (?E ! (x - ?n))"
  note vals = built_values_nth [OF assms(1)]
  from build_items_frame [OF assms(1)] have built: "built = [?n ..< next_addr st1]"
    by simp
  have set_items: "set items = set built"
    by (simp add: assms(2))
  have idx: "x - ?n < length built \<and> built ! (x - ?n) = x" if "x \<in> set built" for x
    using that unfolding built by auto
  have inc: "sorted_wrt (<) (map fst ?E)"
    by (rule entries_from_increasing)
  have entry: "?pos x < length rows \<and>
      (\<exists>kv. rows ! ?pos x = JDict kv \<and> make_item repr (?pos x) kv = Inr (heap st1 x))"
    if "x \<in> set built" for x
  proof -
    let ?e = "?E ! (x - ?n)"
    from idx [OF that] vals have k: "x - ?n < length ?E"
      and mk: "make_item repr (fst ?e) (snd ?e) = Inr (heap st1 x)"
      by auto
    from k have "?e \<in> set ?E" by simp
    then have "(fst ?e, snd ?e) \<in> set ?E" by (simp only: prod.collapse)
    then have "0 \<le> fst ?e \<and> fst ?e < 0 + length rows \<and> rows ! (fst ?e - 0) = JDict (snd ?e)"
      by (simp only: entries_from_mem)
    then have "fst ?e < length rows" "rows ! fst ?e = JDict (snd ?e)"
      by simp_all
    with mk show ?thesis by blast
  qed
  have order: "?pos x < ?pos y" if "x \<in> set built" "y \<in> set built" "x < y" for x y
  proof -
    from idx [OF that(1)] idx [OF that(2)] that(3) vals(1)
    have "x - ?n < y - ?n" "y - ?n < length (map fst ?E)"
      unfolding built by auto
    from sorted_wrt_nth_less [OF inc this] this show ?thesis by simp
  qed
  have stable: "items ! a < items ! b"
    if "a < b" "b < length items" "?f (items ! a) = ?f (items ! b)" for a b
  proof -
    have "sorted_wrt (<) (filter (\<lambda>x. ?f x = ?f (items ! b)) built)"
      unfolding built by (intro sorted_wrt_filter) (simp add: strict_sorted_iff)
    then have "sorted_wrt (<) (filter (\<lambda>x. ?f x = ?f (items ! b)) items)"
      unfolding assms(2) by (simp only: sort_key_stable)
    from filter_keeps_order [OF this that(1,2)] that(3) show ?thesis by simp
  qed
  have "length (map ?pos items) = length items"
    by simp
  moreover have "\<forall>k < length items. map ?pos items ! k < length rows \<and>
      (\<exists>kv. rows ! (map ?pos items ! k) = JDict kv \<and>
             make_item repr (map ?pos items ! k) kv = Inr (heap st1 (items ! k)))"
  proof (intro allI impI)
    fix k
    assume k: "k < length items"
    then have "items ! k \<in> set built"
      using set_items nth_mem by blast
    from entry [OF this] k
    show "map ?pos items ! k < length rows \<and>
      (\<exists>kv. rows ! (map ?pos items ! k) = JDict kv \<and>
             make_item repr (map ?pos items ! k) kv = Inr (heap st1 (items ! k)))"
      by (simp only: nth_map)
  qed
  moreover have "\<forall>a b. a < b \<and> b < length items \<and> ?f (items ! a) = ?f (items ! b) \<longrightarrow>
      map ?pos items ! a < map ?pos items ! b"
  proof (intro allI impI)
    fix a b
    assume ab: "a < b \<and> b < length items \<and> ?f (items ! a) = ?f (items ! b)"
    then have a: "a < length items" and b: "b < length items" and lt: "a < b"
      and eq: "?f (items ! a) = ?f (items ! b)"
      by simp_all
    from a b have "items ! a \<in> set built" "items ! b \<in> set built"
      using set_items nth_mem by blast+
    from order [OF this stable [OF lt b eq]] a b
    show "map ?pos items ! a < map ?pos items ! b"
      by (simp only: nth_map)
  qed
  ultimately show ?thesis by blast
qed

text \<open>
  C3. Every sequence that the loader returns is ascending in price. When the loader
  builds the sequence from the file, each record comes from a key-value entry of the
  source sequence, and two records of equal price stand in the order of their entries
  in the file: \<open>ps ! k\<close> is the position in the file of the entry behind the \<open>k\<close>-th
  record returned. (On a cache hit the sequence built by that earlier load is
  returned as it is.)
\<close>

theorem load_laptops_sorted_stable:
  assumes "reachable repr st" and "load_laptops repr dfile st = Inr (items, st')"
  shows "sorted (map (\<lambda>x. price (heap st' x)) items) \<and>
    (\<forall>mt rows. dfile = Some (mt, Some (JList rows)) \<and>
         \<not> (cache_mtime st = Some mt \<and> cache_items st \<noteq> []) \<longrightarrow>
       (\<exists>ps. length ps = length items \<and>
          (\<forall>k < length items. ps ! k < length rows \<and>
             (\<exists>kv. rows ! (ps ! k) = JDict kv \<and>
                    make_item repr (ps ! k) kv = Inr (heap st' (items ! k)))) \<and>
          (\<forall>a b. a < b \<and> b < length items \<and>
                 price (heap st' (items ! a)) = price (heap st' (items ! b)) \<longrightarrow>
                 ps ! a < ps ! b)))"
proof -
  from reachable_cache_inv [OF assms(1)] assms(2) have "cache_inv st'"
    by (rule cache_inv_load)
  with load_laptops_result_cached [OF assms(2)]
  have sorted: "sorted (map (\<lambda>x. price (heap st' x)) items)"
    by (simp add: cache_inv_def)
  have "\<exists>ps. length ps = length items \<and>
          (\<forall>k < length items. ps ! k < length rows \<and>
             (\<exists>kv. rows ! (ps ! k) = JDict kv \<and>
                    make_item repr (ps ! k) kv = Inr (heap st' (items ! k)))) \<and>
          (\<forall>a b. a < b \<and> b < length items \<and>
                 price (heap st' (items ! a)) = price (heap st' (items ! b)) \<longrightarrow>
                 ps ! a < ps ! b)"
    if f: "dfile = Some (mt, Some (JList rows))"
      and m: "\<not> (cache_mtime st = Some mt \<and> cache_items st \<noteq> [])" for mt rows
  proof -
    from assms(2) [unfolded f] m obtain rows' built st1 where
      "Some (JList rows) = Some (JList rows')"
      "build_items repr 0 rows' st = Inr (built, st1)"
      "items = sort_key (\<lambda>x. price (heap st1 x)) built"
      "st' = st1\<lparr>cache_mtime := Some mt, cache_items := items\<rparr>"
      by (rule load_laptops_miss_success)
    then have b: "build_items repr 0 rows st = Inr (built, st1)"
      "items = sort_key (\<lambda>x. price (heap st1 x)) built" and h: "heap st' = heap st1"
      by simp_all
    from built_source_positions [OF b] show ?thesis
      unfolding h .
  qed
  with sorted show ?thesis by blast
qed

theorem load_laptops_sorted_stable_witness:
  "reachable (\<lambda>_. []) init_state \<and>
   (case load_laptops (\<lambda>_. []) example_file init_state of
      Inl e \<Rightarrow> False
    | Inr (items, st') \<Rightarrow>
        items = [1, 2, 0] \<and> map (\<lambda>x. price (heap st' x)) items = [500, 500, 150000] \<and>
        sorted (map (\<lambda>x. price (heap st' x)) items) \<and>
        (\<exists>ps. length ps = 3 \<and> ps ! 0 < ps ! 1 \<and>
           (\<exists>kv. example_rows ! (ps ! 0) = JDict kv \<and>
                  make_item (\<lambda>_. []) (ps ! 0) kv = Inr (heap st' 1))))"
proof -
  obtain st1 where ld: "load_laptops (\<lambda>_. []) example_file init_state = Inr ([1, 2, 0], st1)"
    and h: "price (heap st1 0) = 150000" "price (heap st1 (Suc 0)) = 500"
      "price (heap st1 2) = 500"
    by (rule example_load [of "\<lambda>_. []"]) simp
  have miss: "\<not> (cache_mtime init_state = Some 5 \<and> cache_items init_state \<noteq> [])"
    by (simp add: init_state_def)
  note inst = load_laptops_sorted_stable [OF reachable.start ld]
  from inst have srt: "sorted (map (\<lambda>x. price (heap st1 x)) [1, 2, 0])"
    by (rule conjunct1)
  from inst [THEN conjunct2, rule_format, of 5 example_rows] miss
  obtain ps where ps: "length ps = length [1 :: nat, 2, 0]"
    "\<forall>k < length [1 :: nat, 2, 0]. ps ! k < length example_rows \<and>
       (\<exists>kv. example_rows ! (ps ! k) = JDict kv \<and>
          make_item (\<lambda>_. []) (ps ! k) kv = Inr (heap st1 ([1, 2, 0] ! k)))"
    "\<forall>a b. a < b \<and> b < length [1 :: nat, 2, 0] \<and>
       price (heap st1 ([1, 2, 0] ! a)) = price (heap st1 ([1, 2, 0] ! b)) \<longrightarrow> ps ! a < ps ! b"
    unfolding example_file_def by blast
  from ps(3) [rule_format, of 0 1] h have "ps ! 0 < ps ! 1"
    by simp
  moreover from ps(2) [rule_format, of 0]
  have "\<exists>kv. example_rows ! (ps ! 0) = JDict kv \<and>
      make_item (\<lambda>_. []) (ps ! 0) kv = Inr (heap st1 1)"
    by simp
  ultimately have "\<exists>ps. length ps = 3 \<and> ps ! 0 < ps ! 1 \<and>
      (\<exists>kv. example_rows ! (ps ! 0) = JDict kv \<and>
             make_item (\<lambda>_. []) (ps ! 0) kv = Inr (heap st1 1))"
    using ps(1) by (intro exI [of _ ps]) simp
  with srt show ?thesis
    using reachable.start [of "\<lambda>_. []"] by (simp add: ld h)
qed

subsection \<open>Identifiers\<close>

text \<open>
  C4. In every sequence that the loader returns the identifiers are pairwise different,
  whatever the names. Each identifier is the slug of the record's name in the
  specification's words (which \<^verbatim>\<open>slugify\<close> computes), a hyphen and a positive number;
  when the sequence is built from the file, that number is the 1-based position in the
  source sequence of the entry the record is made from.
\<close>

theorem load_laptops_ids_unique:
  assumes "reachable repr st" and "load_laptops repr dfile st = Inr (items, st')"
  shows "distinct (map (\<lambda>x. item_id (heap st' x)) items) \<and>
    (\<forall>x \<in> set items. \<exists>i.
       item_id (heap st' x) = slugify_spec (name (heap st' x)) @ ''-'' @ str_nat (i + 1)) \<and>
    (\<forall>mt rows. dfile = Some (mt, Some (JList rows)) \<and>
         \<not> (cache_mtime st = Some mt \<and> cache_items st \<noteq> []) \<longrightarrow>
       (\<forall>x \<in> set items. \<exists>i kv. i < length rows \<and> rows ! i = JDict kv \<and>
          make_item repr i kv = Inr (heap st' x) \<and>
          item_id (heap st' x) = slugify_spec (name (heap st' x)) @ ''-'' @ str_nat (i + 1))) \<and>
    (\<forall>text. slugify text = slugify_spec text)"
proof -
  from reachable_cache_inv [OF assms(1)] assms(2) have "cache_inv st'"
    by (rule cache_inv_load)
  with load_laptops_result_cached [OF assms(2)]
  have "distinct (map (\<lambda>x. item_id (heap st' x)) items)"
    and "\<forall>x \<in> set items. \<exists>i.
       item_id (heap st' x) = slugify_spec (name (heap st' x)) @ ''-'' @ str_nat (i + 1)"
    by (simp_all add: cache_inv_def)
  moreover have "\<exists>i kv. i < length rows \<and> rows ! i = JDict kv \<and>
          make_item repr i kv = Inr (heap st' x) \<and>
          item_id (heap st' x) = slugify_spec (name (heap st' x)) @ ''-'' @ str_nat (i + 1)"
    if f: "dfile = Some (mt, Some (JList rows))"
      and m: "\<not> (cache_mtime st = Some mt \<and> cache_items st \<noteq> [])"
      and x: "x \<in> set items" for mt rows x
  proof -
    from assms(2) [unfolded f] m obtain rows' built st1 where
      "Some (JList rows) = Some (JList rows')"
      "build_items repr 0 rows' st = Inr (built, st1)"
      "items = sort_key (\<lambda>x. price (heap st1 x)) built"
      "st' = st1\<lparr>cache_mtime := Some mt, cache_items := items\<rparr>"
      by (rule load_laptops_miss_success)
    then have b: "build_items repr 0 rows st = Inr (built, st1)"
      and xb: "x \<in> set built" and h: "heap st' = heap st1"
      using x by simp_all
    from built_from_entry [OF b xb] obtain i kv where
      i: "i < length rows" "rows ! i = JDict kv" "make_item repr i kv = Inr (heap st1 x)"
      by auto
    from make_item_fields(1) [OF i(3)] i show ?thesis
      unfolding h by blast
  qed
  ultimately show ?thesis
    using slugify_eq_spec by blast
qed

theorem load_laptops_ids_unique_witness:
  "reachable (\<lambda>_. []) init_state \<and>
   (case load_laptops (\<lambda>_. []) example_file init_state of
      Inl e \<Rightarrow> False
    | Inr (items, st') \<Rightarrow>
        map (\<lambda>x. name (heap st' x)) items = [''HP Pavilion'', ''Dell XPS 13'', ''Dell XPS 13''] \<and>
        map (\<lambda>x. item_id (heap st' x)) items =
          [''hp-pavilion-3'', ''dell-xps-13-4'', ''dell-xps-13-1''] \<and>
        distinct (map (\<lambda>x. item_id (heap st' x)) items))"
proof -
  obtain st1 where ld: "load_laptops (\<lambda>_. []) example_file init_state = Inr ([1, 2, 0], st1)"
    and h: "heap st1 0 =
       \<lparr>item_id = ''dell-xps-13-1'', name = ''Dell XPS 13'', price = 150000,
        pics = [''images/a.jpg''], description = [], pic_urls = None\<rparr>"
    "heap st1 (Suc 0) =
       \<lparr>item_id = ''hp-pavilion-3'', name = ''HP Pavilion'', price = 500, pics = [],
        description = [], pic_urls = None\<rparr>"
    "heap st1 2 =
       \<lparr>item_id = ''dell-xps-13-4'', name = ''Dell XPS 13'', price = 500, pics = [],
        description = [], pic_urls = None\<rparr>"
    by (rule example_load [of "\<lambda>_. []"]) simp
  from load_laptops_ids_unique [OF reachable.start ld]
  have "distinct (map (\<lambda>x. item_id (heap st1 x)) [1, 2, 0])"
    by (rule conjunct1)
  then show ?thesis
    using reachable.start [of "\<lambda>_. []"] by (simp add: ld h)
qed

subsection \<open>Failures of the loader\<close>

lemma parse_price_errors:
  assumes "parse_price repr v = Inl e"
  shows "(\<exists>s. e = ValueError (''could not convert string to float: '' @ s)) \<or>
     e = ValueError ''cannot convert float NaN to integer'' \<or>
     e = OverflowError ''cannot convert float infinity to integer''"
proof -
  have fl: "int_of_float x = Inl e \<Longrightarrow>
      e = ValueError ''cannot convert float NaN to integer'' \<or>
      e = OverflowError ''cannot convert float infinity to integer''" for x
    by (cases x) (auto simp: int_of_float_def)
  have st: "py_float s = Inl e \<Longrightarrow>
      \<exists>t. e = ValueError (''could not convert string to float: '' @ t)" for s
    by (auto simp: py_float_def Let_def split: if_splits)
  from assms show ?thesis
    by (cases v) (auto simp: parse_price_def Let_def split: if_splits sum.splits dest: fl st)
qed

lemma make_item_errors:
  assumes "make_item repr i kv = Inl e"
  shows "e \<noteq> FileNotFoundError \<and> e \<noteq> JSONDecodeError \<and>
     e \<noteq> ValueError ''laptops.json must be a LIST of objects.''"
proof -
  from assms have "parse_price repr (dict_get kv ''price'' (JInt 0)) = Inl e"
    by (auto simp: make_item_def Let_def split: sum.splits)
  from parse_price_errors [OF this] show ?thesis by auto
qed

lemma build_items_errors:
  assumes "build_items repr idx rows st = Inl e"
  shows "e \<noteq> FileNotFoundError \<and> e \<noteq> JSONDecodeError \<and>
     e \<noteq> ValueError ''laptops.json must be a LIST of objects.''"
proof -
  from build_items_error [OF assms] obtain i kv where "make_item repr i kv = Inl e"
    by auto
  then show ?thesis by (rule make_item_errors)
qed

lemma load_laptops_missing_iff:
  "load_laptops repr dfile st = Inl FileNotFoundError \<longleftrightarrow> dfile = None"
proof
  assume "dfile = None"
  then show "load_laptops repr dfile st = Inl FileNotFoundError"
    by (simp add: load_laptops_def)
next
  assume l: "load_laptops repr dfile st = Inl FileNotFoundError"
  show "dfile = None"
  proof (rule ccontr)
    assume "dfile \<noteq> None"
    then obtain mt content where f: "dfile = Some (mt, content)" by auto
    show False
    proof (cases "cache_mtime st = Some mt \<and> cache_items st \<noteq> []")
      case True
      with l f show False by (simp add: load_laptops_hit)
    next
      case False
      from l [unfolded f load_laptops_miss [OF False]] show False
        by (auto split: option.splits json.splits sum.splits dest!: build_items_errors)
    qed
  qed
qed

lemma load_laptops_malformed_iff:
  "load_laptops repr dfile st = Inl (ValueError ''laptops.json must be a LIST of objects.'') \<longleftrightarrow>
     (\<exists>mt data. dfile = Some (mt, Some data) \<and>
        \<not> (cache_mtime st = Some mt \<and> cache_items st \<noteq> []) \<and> (\<nexists>rows. data = JList rows))"
  (is "?l \<longleftrightarrow> ?r")
proof
  assume ?r
  then obtain mt data where f: "dfile = Some (mt, Some data)"
    and m: "\<not> (cache_mtime st = Some mt \<and> cache_items st \<noteq> [])"
    and d: "\<nexists>rows. data = JList rows"
    by blast
  from d show ?l
    unfolding f load_laptops_miss [OF m] by (cases data) simp_all
next
  assume l: ?l
  then obtain mt content where f: "dfile = Some (mt, content)"
    by (cases dfile) (auto simp: load_laptops_def)
  have m: "\<not> (cache_mtime st = Some mt \<and> cache_items st \<noteq> [])"
  proof
    assume "cache_mtime st = Some mt \<and> cache_items st \<noteq> []"
    then have "load_laptops repr (Some (mt, content)) st = Inr (cache_items st, st)"
      by (simp add: load_laptops_hit)
    with l f show False by simp
  qed
  from l [unfolded f load_laptops_miss [OF m]]
  have "\<exists>data. content = Some data \<and> (\<nexists>rows. data = JList rows)"
    by (auto split: option.splits json.splits sum.splits dest!: build_items_errors)
  with f m show ?r by blast
qed

lemma build_items_skip:
  "(\<nexists>kv. row = JDict kv) \<Longrightarrow>
     build_items repr idx (row # rows) st = build_items repr (idx + 1) rows st"
  by (cases row) simp_all

lemma entries_all_made:
  assumes "\<forall>i kv. i < length rows \<and> rows ! i = JDict kv \<longrightarrow> (\<exists>d. make_item repr i kv = Inr d)"
  shows "\<forall>(i, kv) \<in> set (entries_from 0 rows). \<exists>d. make_item repr i kv = Inr d"
  using assms by (auto simp: entries_from_mem)

text \<open>
  C8. The loader fails with \<^verbatim>\<open>FileNotFoundError\<close> exactly when the file does not exist.
  It fails with the \<^verbatim>\<open>ValueError\<close> of malformed data exactly when it parses the file (the
  cache does not answer) and the parsed content is not a list. An element of the list that
  is not a dictionary is passed over by the loop: it contributes no record and no error,
  so the catalogue has one record for each dictionary of the list, and the load succeeds
  whenever each dictionary can be made into a record.
\<close>

theorem load_laptops_failures:
  "(load_laptops repr dfile st = Inl FileNotFoundError \<longleftrightarrow> dfile = None) \<and>
   (load_laptops repr dfile st = Inl (ValueError ''laptops.json must be a LIST of objects.'') \<longleftrightarrow>
      (\<exists>mt data. dfile = Some (mt, Some data) \<and>
         \<not> (cache_mtime st = Some mt \<and> cache_items st \<noteq> []) \<and> (\<nexists>rows. data = JList rows))) \<and>
   ((\<nexists>kv. row = JDict kv) \<longrightarrow>
      build_items repr idx (row # tl_rows) st = build_items repr (idx + 1) tl_rows st) \<and>
   (dfile = Some (mt, Some (JList rows)) \<and>
    \<not> (cache_mtime st = Some mt \<and> cache_items st \<noteq> []) \<longrightarrow>
      (\<forall>items st'. load_laptops repr dfile st = Inr (items, st') \<longrightarrow>
         length items = length (filter (\<lambda>row. \<exists>kv. row = JDict kv) rows) \<and>
         (\<forall>x \<in> set items. \<exists>i kv. i < length rows \<and> rows ! i = JDict kv \<and>
            make_item repr i kv = Inr (heap st' x))) \<and>
      (\<forall>e. load_laptops repr dfile st = Inl e \<longrightarrow>
         (\<exists>i kv. i < length rows \<and> rows ! i = JDict kv \<and> make_item repr i kv = Inl e)) \<and>
      ((\<forall>i kv. i < length rows \<and> rows ! i = JDict kv \<longrightarrow> (\<exists>d. make_item repr i kv = Inr d)) \<longrightarrow>
         (\<exists>items st'. load_laptops repr dfile st = Inr (items, st'))))"
proof -
  have rest: "(\<forall>items st'. load_laptops repr dfile st = Inr (items, st') \<longrightarrow>
         length items = length (filter (\<lambda>row. \<exists>kv. row = JDict kv) rows) \<and>
         (\<forall>x \<in> set items. \<exists>i kv. i < length rows \<and> rows ! i = JDict kv \<and>
            make_item repr i kv = Inr (heap st' x))) \<and>
      (\<forall>e. load_laptops repr dfile st = Inl e \<longrightarrow>
         (\<exists>i kv. i < length rows \<and> rows ! i = JDict kv \<and> make_item repr i kv = Inl e)) \<and>
      ((\<forall>i kv. i < length rows \<and> rows ! i = JDict kv \<longrightarrow> (\<exists>d. make_item repr i kv = Inr d)) \<longrightarrow>
         (\<exists>items st'. load_laptops repr dfile st = Inr (items, st')))"
    if f: "dfile = Some (mt, Some (JList rows))"
      and m: "\<not> (cache_mtime st = Some mt \<and> cache_items st \<noteq> [])"
  proof (intro conjI allI impI)
    fix items st'
    assume "load_laptops repr dfile st = Inr (items, st')"
    from this [unfolded f] m obtain rows' built st1 where
      "Some (JList rows) = Some (JList rows')"
      "build_items repr 0 rows' st = Inr (built, st1)"
      "items = sort_key (\<lambda>x. price (heap st1 x)) built"
      "st' = st1\<lparr>cache_mtime := Some mt, cache_items := items\<rparr>"
      by (rule load_laptops_miss_success)
    then have b: "build_items repr 0 rows st = Inr (built, st1)"
      and it: "set items = set built" "length items = length built" and h: "heap st' = heap st1"
      by simp_all
    from built_values_nth(1) [OF b] it(2)
    show "length items = length (filter (\<lambda>row. \<exists>kv. row = JDict kv) rows)"
      by (simp add: entries_from_length)
    show "\<forall>x \<in> set items. \<exists>i kv. i < length rows \<and> rows ! i = JDict kv \<and>
            make_item repr i kv = Inr (heap st' x)"
      unfolding h it(1) using built_from_entry [OF b] by auto
  next
    fix e
    assume "load_laptops repr dfile st = Inl e"
    then have "build_items repr 0 rows st = Inl e"
      unfolding f load_laptops_miss [OF m] by (auto split: sum.splits)
    from build_items_error [OF this]
    show "\<exists>i kv. i < length rows \<and> rows ! i = JDict kv \<and> make_item repr i kv = Inl e"
      by (auto simp: entries_from_mem)
  next
    assume "\<forall>i kv. i < length rows \<and> rows ! i = JDict kv \<longrightarrow> (\<exists>d. make_item repr i kv = Inr d)"
    from build_items_succeeds [OF entries_all_made [OF this], of st]
    show "\<exists>items st'. load_laptops repr dfile st = Inr (items, st')"
      unfolding f load_laptops_miss [OF m] by auto
  qed
  show ?thesis
    using load_laptops_missing_iff [of repr dfile st] load_laptops_malformed_iff [of repr dfile st]
      build_items_skip [of row repr idx tl_rows st] rest
    by blast
qed

theorem load_laptops_failures_witness:
  "load_laptops (\<lambda>_. []) None init_state = Inl FileNotFoundError \<and>
   load_laptops (\<lambda>_. []) (Some (1, Some (JDict []))) init_state =
     Inl (ValueError ''laptops.json must be a LIST of objects.'') \<and>
   length (filter (\<lambda>row. \<exists>kv. row = JDict kv) example_rows) = 3 \<and>
   (case load_laptops (\<lambda>_. []) example_file init_state of
      Inl e \<Rightarrow> False
    | Inr (items, st') \<Rightarrow> length items = 3)"
proof -
  obtain st1 where ld: "load_laptops (\<lambda>_. []) example_file init_state = Inr ([1, 2, 0], st1)"
    by (rule example_load [of "\<lambda>_. []"])
  have miss: "\<not> (cache_mtime init_state = Some m \<and> cache_items init_state \<noteq> [])" for m
    by (simp add: init_state_def)
  have n: "length (filter (\<lambda>row. \<exists>kv. row = JDict kv) example_rows) = 3"
    by (simp add: example_rows_def)
  from load_laptops_failures [of "\<lambda>_. []" None init_state]
  have "load_laptops (\<lambda>_. []) None init_state = Inl FileNotFoundError"
    by simp
  moreover from load_laptops_failures [of "\<lambda>_. []" "Some (1, Some (JDict []))" init_state] miss
  have "load_laptops (\<lambda>_. []) (Some (1, Some (JDict []))) init_state =
     Inl (ValueError ''laptops.json must be a LIST of objects.'')"
    by simp
  ultimately show ?thesis
    using n by (simp add: ld)
qed

subsection \<open>The cache\<close>

text \<open>
  C9. For a file that exists with modification time \<open>mt\<close>: when the cached time is \<open>mt\<close>
  and the cached sequence is not empty, the loader returns that very sequence and leaves
  the state as it is, whatever the file holds (it does not read it). Otherwise a load that
  returns has built every record anew from the rows of the file, in fresh objects, sorted
  them, and stored \<open>mt\<close> and the new sequence in the cache.
\<close>

theorem load_laptops_cache:
  assumes "dfile = Some (mt, content)"
  shows "(cache_mtime st = Some mt \<and> cache_items st \<noteq> [] \<longrightarrow>
       (\<forall>content'. load_laptops repr (Some (mt, content')) st = Inr (cache_items st, st))) \<and>
    (\<not> (cache_mtime st = Some mt \<and> cache_items st \<noteq> []) \<longrightarrow>
       (\<forall>items st'. load_laptops repr dfile st = Inr (items, st') \<longrightarrow>
          cache_mtime st' = Some mt \<and> cache_items st' = items \<and>
          (\<forall>x \<in> set items. next_addr st \<le> x \<and> x < next_addr st') \<and>
          (\<exists>rows built.
             content = Some (JList rows) \<and>
             map (\<lambda>(i, kv). make_item repr i kv) (entries_from 0 rows) =
               map (\<lambda>x. Inr (heap st' x)) built \<and>
             items = sort_key (\<lambda>x. price (heap st' x)) built)))"
proof (intro conjI impI allI)
  fix content'
  assume "cache_mtime st = Some mt \<and> cache_items st \<noteq> []"
  then show "load_laptops repr (Some (mt, content')) st = Inr (cache_items st, st)"
    by (simp add: load_laptops_hit)
next
  fix items st'
  assume m: "\<not> (cache_mtime st = Some mt \<and> cache_items st \<noteq> [])"
    and l: "load_laptops repr dfile st = Inr (items, st')"
  from l [unfolded assms] m obtain rows built st1 where c: "content = Some (JList rows)"
    and b: "build_items repr 0 rows st = Inr (built, st1)"
    and it: "items = sort_key (\<lambda>x. price (heap st1 x)) built"
    and st': "st' = st1\<lparr>cache_mtime := Some mt, cache_items := items\<rparr>"
    by (rule load_laptops_miss_success)
  from st' show "cache_mtime st' = Some mt" "cache_items st' = items"
    by simp_all
  from build_items_frame [OF b] it st'
  show "\<forall>x \<in> set items. next_addr st \<le> x \<and> x < next_addr st'"
    by auto
  from build_items_values [OF b] c it st'
  show "\<exists>rows built.
      content = Some (JList rows) \<and>
      map (\<lambda>(i, kv). make_item repr i kv) (entries_from 0 rows) =
        map (\<lambda>x. Inr (heap st' x)) built \<and>
      items = sort_key (\<lambda>x. price (heap st' x)) built"
    by auto
qed

theorem load_laptops_cache_witness:
  "(case load_laptops (\<lambda>_. []) example_file init_state of
      Inl e \<Rightarrow> False
    | Inr (items, st1) \<Rightarrow>
        items = [1, 2, 0] \<and> cache_mtime st1 = Some 5 \<and> cache_items st1 = [1, 2, 0] \<and>
        load_laptops (\<lambda>_. []) (Some (5, None)) st1 = Inr ([1, 2, 0], st1))"
proof -
  obtain st1 where ld: "load_laptops (\<lambda>_. []) example_file init_state = Inr ([1, 2, 0], st1)"
    and c: "cache_mtime st1 = Some 5" "cache_items st1 = [1, 2, 0]"
    by (rule example_load [of "\<lambda>_. []"])
  have miss: "\<not> (cache_mtime init_state = Some 5 \<and> cache_items init_state \<noteq> [])"
    by (simp add: init_state_def)
  from load_laptops_cache [of example_file 5 "Some (JList example_rows)" init_state "\<lambda>_. []"]
    miss ld
  have new: "cache_mtime st1 = Some 5 \<and> cache_items st1 = [1, 2, 0]"
    by (simp add: example_file_def)
  from load_laptops_cache [of "Some (5, None)" 5 None st1 "\<lambda>_. []"] c
  have hit: "load_laptops (\<lambda>_. []) (Some (5, None)) st1 = Inr ([1, 2, 0], st1)"
    by simp
  from new hit show ?thesis
    by (simp add: ld)
qed

subsection \<open>What a request changes\<close>

lemma load_laptops_frame:
  assumes "load_laptops repr dfile st = Inr (items, st1)" and "x < next_addr st"
  shows "heap st1 x = heap st x \<and>
    (cache_items st1 = cache_items st \<and> cache_mtime st1 = cache_mtime st \<or>
     (\<exists>mt content. dfile = Some (mt, content) \<and>
        \<not> (cache_mtime st = Some mt \<and> cache_items st \<noteq> []) \<and> cache_mtime st1 = Some mt \<and>
        (\<forall>y \<in> set (cache_items st1). next_addr st \<le> y)))"
  using assms(1)
proof (cases rule: load_laptops_cases)
  case hit
  then show ?thesis by simp
next
  case (miss mt rows built st0)
  from build_items_frame [OF miss(3)] assms(2)
  have "heap st0 x = heap st x" "\<forall>y \<in> set built. next_addr st \<le> y"
    by auto
  with miss show ?thesis by auto
qed

text \<open>
  C5 (amended). A request never changes the \<^verbatim>\<open>id\<close>, \<^verbatim>\<open>name\<close>, \<^verbatim>\<open>price\<close>, \<^verbatim>\<open>pics\<close> or
  \<^verbatim>\<open>description\<close> of a record of the cached snapshot. The product page and the API
  leave the record as it is; the listing route may set its \<^verbatim>\<open>pic_urls\<close> (to the resolved
  pictures, or the placeholder) and changes nothing else. The snapshot itself stays, or
  is replaced as a whole by newly built records when the loader reloads the file.
\<close>

theorem serve_changes_only_pic_urls:
  assumes "reachable repr st" and "x \<in> set (cache_items st)"
    and "serve repr dfile req st = (r, st')"
  shows "item_id (heap st' x) = item_id (heap st x) \<and> name (heap st' x) = name (heap st x) \<and>
    price (heap st' x) = price (heap st x) \<and> pics (heap st' x) = pics (heap st x) \<and>
    description (heap st' x) = description (heap st x) \<and>
    (heap st' x = heap st x \<or>
     (\<exists>a b c d q. req = Home a b c d q) \<and> heap st' x = with_pic_urls (heap st x)) \<and>
    (cache_items st' = cache_items st \<and> cache_mtime st' = cache_mtime st \<or>
     (\<exists>mt content. dfile = Some (mt, content) \<and>
        \<not> (cache_mtime st = Some mt \<and> cache_items st \<noteq> []) \<and> cache_mtime st' = Some mt \<and>
        (\<forall>y \<in> set (cache_items st'). next_addr st \<le> y)))"
proof -
  from reachable_cache_inv [OF assms(1)] assms(2) have x: "x < next_addr st"
    by (simp add: cache_inv_def)
  show ?thesis
  proof (cases "load_laptops repr dfile st")
    case (Inl e)
    with assms(3) have "st' = st"
      by (cases req) (auto simp: home_def product_page_def api_laptops_def)
    then show ?thesis by simp
  next
    case (Inr res)
    obtain items st1 where res: "res = (items, st1)" by (cases res)
    note fr = load_laptops_frame [OF Inr [unfolded res] x]
    show ?thesis
    proof (cases req)
      case (Home a b c d q)
      with assms(3) Inr res obtain xs where "st' = st1\<lparr>heap := set_pic_urls xs (heap st1)\<rparr>"
        by (auto simp: home_def Let_def)
      then have "heap st' x = (if x \<in> set xs then with_pic_urls (heap st1 x) else heap st1 x)"
        and "cache_items st' = cache_items st1" "cache_mtime st' = cache_mtime st1"
        by (simp_all add: set_pic_urls_apply)
      with fr Home show ?thesis
        by (cases "x \<in> set xs") auto
    next
      case (ProductPage w)
      with assms(3) Inr res have "st' = st1"
        by (auto simp: product_page_def Let_def split: option.splits)
      with fr show ?thesis by auto
    next
      case (ApiLaptops a b q)
      with assms(3) Inr res have "st' = st1"
        by (auto simp: api_laptops_def Let_def)
      with fr show ?thesis by auto
    qed
  qed
qed

lemma example_loaded_reachable:
  assumes "load_laptops repr example_file init_state = Inr (items, st1)"
  shows "reachable repr st1"
proof -
  have "snd (serve repr example_file (ApiLaptops None None None) init_state) = st1"
    using assms by (simp add: api_laptops_def Let_def)
  with reachable.step [OF reachable.start, of repr example_file "ApiLaptops None None None"]
  show ?thesis by simp
qed

theorem serve_changes_only_pic_urls_witness:
  "(case load_laptops (\<lambda>_. []) example_file init_state of
      Inl e \<Rightarrow> False
    | Inr (items, st1) \<Rightarrow>
        reachable (\<lambda>_. []) st1 \<and> 0 \<in> set (cache_items st1) \<and>
        price (heap (snd (serve (\<lambda>_. []) example_file (Home None None None None None) st1)) 0) =
          price (heap st1 0) \<and>
        heap (snd (serve (\<lambda>_. []) example_file (Home None None None None None) st1)) 0 =
          with_pic_urls (heap st1 0) \<and>
        heap (snd (serve (\<lambda>_. []) example_file (ApiLaptops None None None) st1)) 0 = heap st1 0)"
proof -
  obtain st1 where ld: "load_laptops (\<lambda>_. []) example_file init_state = Inr ([1, 2, 0], st1)"
    and c: "cache_mtime st1 = Some 5" "cache_items st1 = [1, 2, 0]"
    by (rule example_load [of "\<lambda>_. []"])
  note re = example_loaded_reachable [OF ld]
  have mem: "0 \<in> set (cache_items st1)"
    by (simp add: c)
  have hit: "load_laptops (\<lambda>_. []) example_file st1 = Inr ([1, 2, 0], st1)"
    using c by (simp add: example_file_def load_laptops_hit)
  have home: "heap (snd (serve (\<lambda>_. []) example_file (Home None None None None None) st1)) 0 =
      with_pic_urls (heap st1 0)"
    by (simp add: home_def hit Let_def filter_laptops_def normalize_range_value_def
        set_pic_urls_apply)
  have api: "heap (snd (serve (\<lambda>_. []) example_file (ApiLaptops None None None) st1)) 0 = heap st1 0"
    by (simp add: api_laptops_def hit Let_def)
  from serve_changes_only_pic_urls [OF re mem surjective_pairing,
      of example_file "Home None None None None None"]
  have "price (heap (snd (serve (\<lambda>_. []) example_file (Home None None None None None) st1)) 0) =
      price (heap st1 0)"
    by simp
  with re mem home api show ?thesis
    by (simp add: ld)
qed

text \<open>
  The claim as stated fails: the listing route writes \<^verbatim>\<open>pic_urls\<close> into the dictionaries
  it displays, and these are the dictionaries of the cached snapshot. After one listing
  request a record of the snapshot differs from the record that was built, and the API
  returns it with the new key.
\<close>

theorem home_mutates_cached_record:
  "(case load_laptops (\<lambda>_. []) example_file init_state of
      Inl e \<Rightarrow> False
    | Inr (items, st1) \<Rightarrow>
        0 \<in> set (cache_items st1) \<and> pic_urls (heap st1 0) = None \<and>
        cache_items (snd (home (\<lambda>_. []) example_file None None None None None st1)) =
          cache_items st1 \<and>
        pic_urls (heap (snd (home (\<lambda>_. []) example_file None None None None None st1)) 0) =
          Some [''/static/images/a.jpg''] \<and>
        heap (snd (home (\<lambda>_. []) example_file None None None None None st1)) 0 \<noteq> heap st1 0)"
proof -
  obtain st1 where ld: "load_laptops (\<lambda>_. []) example_file init_state = Inr ([1, 2, 0], st1)"
    and c: "cache_mtime st1 = Some 5" "cache_items st1 = [1, 2, 0]"
    and h: "heap st1 0 =
       \<lparr>item_id = ''dell-xps-13-1'', name = ''Dell XPS 13'', price = 150000,
        pics = [''images/a.jpg''], description = [], pic_urls = None\<rparr>"
    by (rule example_load [of "\<lambda>_. []"])
  have hit: "load_laptops (\<lambda>_. []) example_file st1 = Inr ([1, 2, 0], st1)"
    using c by (simp add: example_file_def load_laptops_hit)
  have url: "resolve_pic_url ''images/a.jpg'' = ''/static/images/a.jpg''"
    by code_simp
  have "heap (snd (home (\<lambda>_. []) example_file None None None None None st1)) 0 =
      with_pic_urls (heap st1 0)"
    and "cache_items (snd (home (\<lambda>_. []) example_file None None None None None st1)) =
      cache_items st1"
    by (simp_all add: home_def hit Let_def filter_laptops_def normalize_range_value_def
        set_pic_urls_apply c)
  then show ?thesis
    by (simp add: ld c h with_pic_urls_def url)
qed

subsection \<open>Sign of the parsed price\<close>

lemma set_strip_subset: "set (strip s) \<subseteq> set s"
proof -
  have "set (strip s) \<subseteq> set (dropWhile py_isspace s)"
    unfolding strip_def strip_chars_def set_rev
    using set_dropWhileD [of _ py_isspace "rev (dropWhile py_isspace s)"] by auto
  also have "\<dots> \<subseteq> set s"
    using set_dropWhileD [of _ py_isspace s] by auto
  finally show ?thesis .
qed

lemma parse_price_no_digits:
  assumes "\<forall>c \<in> set s. \<not> is_digit c \<and> c \<noteq> CHR ''.''"
  shows "parse_price repr (JStr s) = Inr 0"
proof -
  have "set (strip (filter (\<lambda>c. c \<noteq> CHR '','') s)) \<subseteq> set s"
    using set_strip_subset [of "filter (\<lambda>c. c \<noteq> CHR '','') s"] by auto
  with assms
  have "filter (\<lambda>c. is_digit c \<or> c = CHR ''.'') (strip (filter (\<lambda>c. c \<noteq> CHR '','') s)) = []"
    by (auto simp: filter_empty_conv)
  then show ?thesis
    by (simp add: parse_price_def py_str_def)
qed

lemma parse_price_nonneg:
  assumes "parse_price repr v = Inr n"
    and "\<forall>k. v = JInt k \<longrightarrow> 0 \<le> k" and "\<forall>x. v = JFloat (Finite x) \<longrightarrow> - 1 < x"
  shows "0 \<le> n"
proof (cases "(\<exists>k. v = JInt k) \<or> (\<exists>x. v = JFloat x)")
  case False
  with assms(1) show ?thesis
    by (intro parse_price_text_nonneg [of repr v n]) auto
next
  case True
  then show ?thesis
  proof
    assume "\<exists>k. v = JInt k"
    with assms(1,2) show ?thesis by (auto simp: parse_price_def)
  next
    assume "\<exists>x. v = JFloat x"
    then obtain x where v: "v = JFloat x" ..
    with assms(1) obtain q where "x = Finite q" "n = py_trunc q"
      by (cases x) (auto simp: parse_price_def int_of_float_def)
    with assms(3) v show ?thesis
      by (simp add: py_trunc_nonneg_iff)
  qed
qed

text \<open>
  C2 (amended). \<^verbatim>\<open>parse_price\<close> gives 0 for an absent value, the value itself for an
  integer, 0 or 1 for a boolean, and a finite float rounded towards zero; text without a
  digit or a dot gives 0. Whenever it returns, the result is non-negative unless the
  input is a negative integer or a float of at most -1. Hence in a catalogue built from a
  file in which no entry has such a number as its price, every record has
  \<open>price \<ge> 0\<close>.
\<close>

theorem parse_price_nonneg_unless_negative_number:
  "parse_price repr JNull = Inr 0 \<and>
   parse_price repr (JInt i) = Inr i \<and>
   parse_price repr (JBool b) = Inr (if b then 1 else 0) \<and>
   parse_price repr (JFloat (Finite q)) = Inr (if 0 \<le> q then \<lfloor>q\<rfloor> else \<lceil>q\<rceil>) \<and>
   ((\<forall>c \<in> set s. \<not> is_digit c \<and> c \<noteq> CHR ''.'') \<longrightarrow> parse_price repr (JStr s) = Inr 0) \<and>
   (parse_price repr v = Inr n \<and> (\<forall>k. v = JInt k \<longrightarrow> 0 \<le> k) \<and>
      (\<forall>x. v = JFloat (Finite x) \<longrightarrow> - 1 < x) \<longrightarrow> 0 \<le> n) \<and>
   (dfile = Some (mt, Some (JList rows)) \<and>
    \<not> (cache_mtime st = Some mt \<and> cache_items st \<noteq> []) \<and>
    load_laptops repr dfile st = Inr (items, st') \<and>
    (\<forall>kv k. JDict kv \<in> set rows \<and> dict_get kv ''price'' (JInt 0) = JInt k \<longrightarrow> 0 \<le> k) \<and>
    (\<forall>kv x. JDict kv \<in> set rows \<and> dict_get kv ''price'' (JInt 0) = JFloat (Finite x) \<longrightarrow> - 1 < x) \<longrightarrow>
      (\<forall>x \<in> set items. 0 \<le> price (heap st' x)))"
proof -
  have cat: "\<forall>x \<in> set items. 0 \<le> price (heap st' x)"
    if f: "dfile = Some (mt, Some (JList rows))"
      and m: "\<not> (cache_mtime st = Some mt \<and> cache_items st \<noteq> [])"
      and l: "load_laptops repr dfile st = Inr (items, st')"
      and ints: "\<forall>kv k. JDict kv \<in> set rows \<and> dict_get kv ''price'' (JInt 0) = JInt k \<longrightarrow> 0 \<le> k"
      and floats: "\<forall>kv x. JDict kv \<in> set rows \<and>
          dict_get kv ''price'' (JInt 0) = JFloat (Finite x) \<longrightarrow> - 1 < x"
  proof
    fix x
    assume x: "x \<in> set items"
    from l [unfolded f] m obtain rows' built st1 where
      "Some (JList rows) = Some (JList rows')"
      "build_items repr 0 rows' st = Inr (built, st1)"
      "items = sort_key (\<lambda>x. price (heap st1 x)) built"
      "st' = st1\<lparr>cache_mtime := Some mt, cache_items := items\<rparr>"
      by (rule load_laptops_miss_success)
    then have b: "build_items repr 0 rows st = Inr (built, st1)"
      and xb: "x \<in> set built" and h: "heap st' = heap st1"
      using x by simp_all
    from built_from_entry [OF b xb] obtain i kv where
      i: "i < length rows" "rows ! i = JDict kv" "make_item repr i kv = Inr (heap st1 x)"
      by auto
    then have mem: "JDict kv \<in> set rows"
      by (metis nth_mem)
    from make_item_fields(2) [OF i(3)] ints floats mem
    show "0 \<le> price (heap st' x)"
      unfolding h by (intro parse_price_nonneg [of repr "dict_get kv ''price'' (JInt 0)"]) auto
  qed
  have "parse_price repr (JFloat (Finite q)) = Inr (if 0 \<le> q then \<lfloor>q\<rfloor> else \<lceil>q\<rceil>)"
    by (simp add: parse_price_def int_of_float_def py_trunc_def)
  moreover have "parse_price repr JNull = Inr 0" "parse_price repr (JInt i) = Inr i"
    "parse_price repr (JBool b) = Inr (if b then 1 else 0)"
    by (simp_all add: parse_price_def)
  ultimately show ?thesis
    using parse_price_no_digits [of s repr] parse_price_nonneg [of repr v n] cat
    by blast
qed

theorem parse_price_nonneg_unless_negative_number_witness:
  "parse_price (\<lambda>_. []) (JStr ''N/A'') = Inr 0 \<and>
   parse_price (\<lambda>_. []) (JStr ''Rs 45,000'') = Inr 45000 \<and>
   (case load_laptops (\<lambda>_. []) example_file init_state of
      Inl e \<Rightarrow> False
    | Inr (items, st') \<Rightarrow> list_all (\<lambda>x. 0 \<le> price (heap st' x)) items)"
proof -
  obtain st1 where ld: "load_laptops (\<lambda>_. []) example_file init_state = Inr ([1, 2, 0], st1)"
    by (rule example_load [of "\<lambda>_. []"])
  have miss: "\<not> (cache_mtime init_state = Some 5 \<and> cache_items init_state \<noteq> [])"
    by (simp add: init_state_def)
  have p: "parse_price (\<lambda>_. []) (JStr ''Rs 45,000'') = Inr 45000"
    by code_simp
  have nodigit: "\<forall>c \<in> set ''N/A''. \<not> is_digit c \<and> c \<noteq> CHR ''.''"
    by (simp add: is_digit_def)
  have prices: "(\<forall>kv k. JDict kv \<in> set example_rows \<and>
        dict_get kv ''price'' (JInt 0) = JInt k \<longrightarrow> 0 \<le> k) \<and>
      (\<forall>kv x. JDict kv \<in> set example_rows \<and>
        dict_get kv ''price'' (JInt 0) = JFloat (Finite x) \<longrightarrow> - 1 < x)"
    by (auto simp: example_rows_def dict_get_def)
  from parse_price_nonneg_unless_negative_number [of "\<lambda>_. []" _ _ _ "''N/A''"] nodigit
  have a: "parse_price (\<lambda>_. []) (JStr ''N/A'') = Inr 0"
    by blast
  from parse_price_nonneg_unless_negative_number [of "\<lambda>_. []" _ _ _ _ _ _ example_file 5
      example_rows init_state "[1, 2, 0]" st1] miss ld prices
  have "\<forall>x \<in> set [1, 2, 0]. 0 \<le> price (heap st1 x)"
    unfolding example_file_def by blast
  with a p show ?thesis
    by (simp add: ld)
qed

text \<open>
  The claim as stated fails on a negative number: it is returned as it is, and the
  record of the catalogue carries the negative price.
\<close>

theorem parse_price_negative:
  "parse_price (\<lambda>_. []) (JInt (- 5)) = Inr (- 5) \<and> \<not> (0 :: int) \<le> - 5 \<and>
   (case load_laptops (\<lambda>_. [])
           (Some (1, Some (JList [JDict [(''name'', JStr ''A''), (''price'', JInt (- 5))]])))
           init_state of
      Inl e \<Rightarrow> False
    | Inr (items, st') \<Rightarrow> map (\<lambda>x. price (heap st' x)) items = [- 5])"
  by code_simp

end
